theory Spec2Isabelle
  imports Main "HOL-Library.Sublist"
begin

section \<open>The replace\_response handler of caddyserver/replace-response\<close>

text \<open>
  A shallow embedding of \<^verbatim>\<open>handler.go\<close>: the configuration check of
  \<^verbatim>\<open>Handler.Provision\<close>, the transformer built by the pool's \<^verbatim>\<open>New\<close> function,
  the two delivery modes of \<^verbatim>\<open>Handler.ServeHTTP\<close> and the streaming wrapper
  \<^verbatim>\<open>replaceWriter\<close>. Go strings and byte slices are \<open>string\<close> (a list of bytes),
  Go's \<^verbatim>\<open>int\<close> status codes are \<open>int\<close>, slice indices are \<open>nat\<close>.

  The handler calls into packages that are not part of the repository
  (\<^verbatim>\<open>regexp\<close>, \<^verbatim>\<open>net/http\<close>, \<^verbatim>\<open>golang.org/x/text/transform\<close>,
  \<^verbatim>\<open>github.com/icholy/replace\<close>, \<^verbatim>\<open>caddyhttp\<close>). What they compute is a parameter of
  the model (the record \<open>externals\<close> below); every theorem about the handler holds for
  all values of that parameter.
\<close>

subsection \<open>Errors\<close>

text \<open>
  The four errors \<^verbatim>\<open>Provision\<close> builds with \<^verbatim>\<open>fmt.Errorf\<close>, and the errors that come
  from outside the handler (the next handler in the chain, \<^verbatim>\<open>transform.Bytes\<close>).
  \<open>ErrRegexp i e\<close> carries the message \<open>e\<close> of the error returned by
  \<^verbatim>\<open>regexp.Compile\<close>.
\<close>

datatype error =
    ErrNoReplacements
  | ErrNoSearch nat
  | ErrBothSearch nat
  | ErrRegexp nat string
  | ErrExternal string

subsection \<open>Decimal rendering: \<^verbatim>\<open>strconv.Itoa\<close> and the verb \<^verbatim>\<open>%d\<close>\<close>

definition digit :: "nat \<Rightarrow> char" where
  "digit d = char_of (48 + d)"

function decimal :: "nat \<Rightarrow> string" where
  "decimal n = (if n < 10 then [digit n] else decimal (n div 10) @ [digit (n mod 10)])"
  by pat_completeness auto
termination
  by (relation "measure (\<lambda>n. n)") auto

declare decimal.simps [simp del]

definition Itoa :: "int \<Rightarrow> string" where
  "Itoa i = (if i < 0 then CHR ''-'' # decimal (nat (- i)) else decimal (nat i))"

text \<open>Reading a decimal numeral back, used to state that \<open>decimal\<close> loses nothing.\<close>

definition digit_value :: "char \<Rightarrow> nat" where
  "digit_value c = of_char c - 48"

definition decimal_value :: "string \<Rightarrow> nat" where
  "decimal_value s = foldl (\<lambda>acc c. 10 * acc + digit_value c) 0 s"

text \<open>The text of an error, as \<^verbatim>\<open>fmt.Errorf\<close> formats it in \<^verbatim>\<open>Provision\<close>.\<close>

fun Error :: "error \<Rightarrow> string" where
  "Error ErrNoReplacements = ''no replacements configured''"
| "Error (ErrNoSearch i) =
     ''replacement '' @ Itoa (int i) @ '': no search or search_regexp configured''"
| "Error (ErrBothSearch i) =
     ''replacement '' @ Itoa (int i)
       @ '': cannot specify both search and search_regexp in same replacement''"
| "Error (ErrRegexp i e) = ''replacement '' @ Itoa (int i) @ '': '' @ e"
| "Error (ErrExternal e) = e"

subsection \<open>Replacements and transformers\<close>

text \<open>
  \<^verbatim>\<open>type Replacement struct\<close>. The unexported field \<^verbatim>\<open>re *regexp.Regexp\<close> is \<open>None\<close>
  for the nil pointer. The type \<open>'re\<close> stands for a compiled regular expression.
  \<^verbatim>\<open>Handler.Replacements\<close> is a slice of pointers; the model keeps the pointed-to values
  and so covers the slices without a nil entry, which is what both configuration paths
  that append \<^verbatim>\<open>&repl\<close> produce.
\<close>

record 're Replacement =
  Search :: string
  SearchRegexp :: string
  Replace :: string
  re :: "'re option"

text \<open>
  Modelled from the spec: the transformers of \<^verbatim>\<open>github.com/icholy/replace\<close> and
  \<^verbatim>\<open>golang.org/x/text/transform\<close>, which are not in the repository. The spec's data
  model gives every rule of a chain a pattern (literal text or compiled regex), a
  replacement template and a Pending Buffer of carried-over bytes; a chain is the ordered
  sequence of its rules. \<open>StringT old new pending\<close> is what \<^verbatim>\<open>replace.String(old, new)\<close>
  returns, \<open>RegexpStringT re new pending\<close> what \<^verbatim>\<open>replace.RegexpString(re, new)\<close> returns,
  and \<open>Chain ts\<close> what \<^verbatim>\<open>transform.Chain(ts...)\<close> returns.
\<close>

datatype 're stage =
    StringT string string string
  | RegexpStringT 're string string

datatype 're transformer = Chain "'re stage list"

definition replace_String :: "string \<Rightarrow> string \<Rightarrow> 're stage" where
  "replace_String old new = StringT old new []"

definition replace_RegexpString :: "'re \<Rightarrow> string \<Rightarrow> 're stage" where
  "replace_RegexpString r new = RegexpStringT r new []"


fun reset_stage :: "'re stage \<Rightarrow> 're stage" where
  "reset_stage (StringT old new p) = StringT old new []"
| "reset_stage (RegexpStringT r new p) = RegexpStringT r new []"

text \<open>
  Modelled from the spec: \<^verbatim>\<open>Transformer.Reset\<close>, which "resets its Pending Buffers to
  empty" and leaves the rules as they are.
\<close>

fun Reset :: "'re transformer \<Rightarrow> 're transformer" where
  "Reset (Chain ts) = Chain (map reset_stage ts)"


subsection \<open>The underlying response writer\<close>

text \<open>
  \<^verbatim>\<open>http.Header\<close> is a map from canonical header names to lists of values;
  \<^verbatim>\<open>Get\<close> returns the first value of a key or the empty string, \<^verbatim>\<open>Set\<close> replaces
  the values of a key by one value, \<^verbatim>\<open>Del\<close> removes the key.
\<close>

type_synonym header = "string \<Rightarrow> string list option"

definition Header_Get :: "header \<Rightarrow> string \<Rightarrow> string" where
  "Header_Get h k = (case h k of None \<Rightarrow> [] | Some [] \<Rightarrow> [] | Some (v # vs) \<Rightarrow> v)"

definition Header_Set :: "header \<Rightarrow> string \<Rightarrow> string \<Rightarrow> header" where
  "Header_Set h k v = h(k \<mapsto> [v])"

definition Header_Del :: "header \<Rightarrow> string \<Rightarrow> header" where
  "Header_Del h k = h(k := None)"

text \<open>
  The \<^verbatim>\<open>http.ResponseWriter\<close> \<^verbatim>\<open>w\<close> handed to \<^verbatim>\<open>ServeHTTP\<close> is the header map it
  exposes through \<^verbatim>\<open>Header()\<close> together with the list of calls it has received, oldest
  first. \<open>EvWriteHeader status h\<close> records the header map \<open>h\<close> as it stands when
  \<^verbatim>\<open>WriteHeader(status)\<close> is called: these are the headers a final status is sent
  with, and later changes of the map do not reach the client.
\<close>

datatype event =
    EvHeaderSet string string
  | EvHeaderDel string
  | EvWriteHeader int header
  | EvWrite string

record response_writer =
  hdr :: header
  calls :: "event list"

definition w_Header_Set :: "response_writer \<Rightarrow> string \<Rightarrow> string \<Rightarrow> response_writer" where
  "w_Header_Set w k v = w\<lparr>hdr := Header_Set (hdr w) k v, calls := calls w @ [EvHeaderSet k v]\<rparr>"

definition w_Header_Del :: "response_writer \<Rightarrow> string \<Rightarrow> response_writer" where
  "w_Header_Del w k = w\<lparr>hdr := Header_Del (hdr w) k, calls := calls w @ [EvHeaderDel k]\<rparr>"

definition w_WriteHeader :: "response_writer \<Rightarrow> int \<Rightarrow> response_writer" where
  "w_WriteHeader w status = w\<lparr>calls := calls w @ [EvWriteHeader status (hdr w)]\<rparr>"

definition w_Write :: "response_writer \<Rightarrow> string \<Rightarrow> response_writer" where
  "w_Write w d = w\<lparr>calls := calls w @ [EvWrite d]\<rparr>"

definition StatusOK :: int where
  "StatusOK = 200"

text \<open>
  The next handler of the chain, \<^verbatim>\<open>next.ServeHTTP(\<dots>, r)\<close>, is the list of calls it makes
  on the response writer it is given and the error it returns. Every behaviour of an
  upstream handler, also one that reacts to what its calls return, is one such list.
  The header names in the calls are canonical, as \<^verbatim>\<open>Header.Set\<close> and \<^verbatim>\<open>Header.Del\<close>
  make them.
\<close>

datatype call =
    CallHeaderSet string string
  | CallHeaderDel string
  | CallWriteHeader int
  | CallWrite string

record next_handler =
  next_calls :: "call list"
  next_err :: "error option"

text \<open>
  What \<^verbatim>\<open>ServeHTTP\<close> reads from the \<^verbatim>\<open>caddyhttp.ResponseRecorder\<close> once the next
  handler has returned: \<^verbatim>\<open>rec.Buffered()\<close>, \<^verbatim>\<open>rec.Status()\<close> and
  \<^verbatim>\<open>rec.Buffer().Bytes()\<close>.
\<close>

record recorded =
  rec_Buffered :: bool
  rec_Status :: int
  rec_Buffer :: string

subsection \<open>The handler and its external collaborators\<close>

text \<open>
  The functions of other packages that the handler calls:
  \<^item> \<open>regexp_Compile\<close> is \<^verbatim>\<open>regexp.Compile\<close>: the compiled expression, or the message of
    the syntax error;
  \<^item> \<open>transform_Bytes\<close> is \<^verbatim>\<open>transform.Bytes(tr, b)\<close>: the transformed bytes or an error,
    and the transformer as the call leaves it;
  \<^item> \<open>writer_Write\<close> and \<open>writer_Close\<close> are \<^verbatim>\<open>Write\<close> and \<^verbatim>\<open>Close\<close> of the
    \<^verbatim>\<open>transform.Writer\<close> made by \<^verbatim>\<open>transform.NewWriter(w, tr)\<close>: the chunks the call
    writes to \<^verbatim>\<open>w\<close>, in order, and the transformer as the call leaves it. The writer holds
    \<^verbatim>\<open>w\<close> as an \<^verbatim>\<open>io.Writer\<close>, so writing chunks is all it can do to \<^verbatim>\<open>w\<close>;
  \<^item> \<open>recorder\<close> is \<^verbatim>\<open>caddyhttp.NewResponseRecorder(w, respBuf, shouldBuf)\<close> driven by the
    calls of the next handler: what the recorder reports afterwards, and \<^verbatim>\<open>w\<close> as the
    calls leave it (the recorder shares the header map of \<^verbatim>\<open>w\<close>).
\<close>

record 're externals =
  regexp_Compile :: "string \<Rightarrow> string + 're"
  transform_Bytes :: "'re transformer \<Rightarrow> string \<Rightarrow> (error + string) \<times> 're transformer"
  writer_Write :: "'re transformer \<Rightarrow> string \<Rightarrow> string list \<times> 're transformer"
  writer_Close :: "'re transformer \<Rightarrow> string list \<times> 're transformer"
  recorder :: "response_writer \<Rightarrow> call list \<Rightarrow> recorded \<times> response_writer"

text \<open>
  \<^verbatim>\<open>type Handler struct\<close>. \<^verbatim>\<open>transformerPool\<close> is a \<^verbatim>\<open>*sync.Pool\<close>: \<open>None\<close> is the nil
  pointer of a handler that was not provisioned, \<open>Some ts\<close> a pool holding the idle
  transformers \<open>ts\<close>.
\<close>

record 're Handler =
  Replacements :: "'re Replacement list"
  Stream :: bool
  transformerPool :: "'re transformer list option"

subsection \<open>\<^verbatim>\<open>Handler.Provision\<close>\<close>

text \<open>
  The loop \<^verbatim>\<open>for i, repl := range h.Replacements\<close>, from index \<open>i\<close> on. The first
  rule that fails a check ends the loop with its error; the rules before it keep the
  compiled expression the loop has stored in them.
\<close>

fun prepare ::
  "'re externals \<Rightarrow> nat \<Rightarrow> 're Replacement list \<Rightarrow> error option \<times> 're Replacement list"
where
  "prepare X i [] = (None, [])"
| "prepare X i (repl # rest) =
     (if Search repl = [] \<and> SearchRegexp repl = [] then (Some (ErrNoSearch i), repl # rest)
      else if Search repl \<noteq> [] \<and> SearchRegexp repl \<noteq> [] then
        (Some (ErrBothSearch i), repl # rest)
      else if SearchRegexp repl \<noteq> [] then
        (case regexp_Compile X (SearchRegexp repl) of
           Inl e \<Rightarrow> (Some (ErrRegexp i e), repl # rest)
         | Inr r \<Rightarrow>
             (case prepare X (Suc i) rest of
                (err, rest') \<Rightarrow> (err, repl\<lparr>re := Some r\<rparr> # rest')))
      else
        (case prepare X (Suc i) rest of (err, rest') \<Rightarrow> (err, repl # rest')))"

text \<open>
  \<^verbatim>\<open>Provision\<close> returns its error (\<open>None\<close> for \<^verbatim>\<open>nil\<close>) and leaves the handler
  changed: the pool is assigned only when every rule has passed.
\<close>

definition Provision :: "'re externals \<Rightarrow> 're Handler \<Rightarrow> error option \<times> 're Handler" where
  "Provision X h =
     (if length (Replacements h) = 0 then (Some ErrNoReplacements, h)
      else
        (case prepare X 0 (Replacements h) of
           (Some e, rs) \<Rightarrow> (Some e, h\<lparr>Replacements := rs\<rparr>)
         | (None, rs) \<Rightarrow> (None, h\<lparr>Replacements := rs, transformerPool := Some []\<rparr>)))"

text \<open>
  The \<^verbatim>\<open>New\<close> function of the pool: one transformer per replacement, in the order of
  \<^verbatim>\<open>h.Replacements\<close>, a regexp transformer when \<^verbatim>\<open>repl.re\<close> is set and a string
  transformer otherwise, chained.
\<close>

definition new_stage :: "'re Replacement \<Rightarrow> 're stage" where
  "new_stage repl =
     (case re repl of
        Some r \<Rightarrow> replace_RegexpString r (Replace repl)
      | None \<Rightarrow> replace_String (Search repl) (Replace repl))"

definition New :: "'re Handler \<Rightarrow> 're transformer" where
  "New h = Chain (map new_stage (Replacements h))"

subsection \<open>\<^verbatim>\<open>replaceWriter\<close>: the response writer of streaming mode\<close>

text \<open>
  \<^verbatim>\<open>type replaceWriter struct\<close>: the embedded wrapper of the underlying response
  writer, the flag \<^verbatim>\<open>wroteHeader\<close> and the transform writer \<^verbatim>\<open>tw\<close>, which is the
  transformer it drives (the field \<^verbatim>\<open>handler\<close> is never read).
\<close>

record 're replaceWriter =
  ResponseWriter :: response_writer
  wroteHeader :: bool
  tw :: "'re transformer"

definition fw_WriteHeader :: "'re replaceWriter \<Rightarrow> int \<Rightarrow> 're replaceWriter" where
  "fw_WriteHeader fw status =
     (if wroteHeader fw then fw
      else fw\<lparr>wroteHeader := True,
              ResponseWriter :=
                w_WriteHeader (w_Header_Del (ResponseWriter fw) ''Content-Length'') status\<rparr>)"

definition fw_Write :: "'re externals \<Rightarrow> 're replaceWriter \<Rightarrow> string \<Rightarrow> 're replaceWriter" where
  "fw_Write X fw d =
     (let fw1 = (if \<not> wroteHeader fw then fw_WriteHeader fw StatusOK else fw)
      in case writer_Write X (tw fw1) d of
           (chunks, tr) \<Rightarrow>
             fw1\<lparr>ResponseWriter := foldl w_Write (ResponseWriter fw1) chunks, tw := tr\<rparr>)"

text \<open>
  One call of the next handler on the \<^verbatim>\<open>replaceWriter\<close>. \<^verbatim>\<open>Header()\<close> is promoted
  from the embedded response writer, so header changes go to the underlying map.
\<close>

fun fw_call :: "'re externals \<Rightarrow> 're replaceWriter \<Rightarrow> call \<Rightarrow> 're replaceWriter" where
  "fw_call X fw (CallHeaderSet k v) = fw\<lparr>ResponseWriter := w_Header_Set (ResponseWriter fw) k v\<rparr>"
| "fw_call X fw (CallHeaderDel k) = fw\<lparr>ResponseWriter := w_Header_Del (ResponseWriter fw) k\<rparr>"
| "fw_call X fw (CallWriteHeader status) = fw_WriteHeader fw status"
| "fw_call X fw (CallWrite d) = fw_Write X fw d"

subsection \<open>\<^verbatim>\<open>Handler.ServeHTTP\<close>\<close>

text \<open>
  What one call of \<^verbatim>\<open>ServeHTTP\<close> leaves behind: the error it returns, the underlying
  response writer, the idle transformers of the pool, and whether \<^verbatim>\<open>transform.Bytes\<close>
  was called.
\<close>

record 're served =
  ret :: "error option"
  wr :: response_writer
  pool :: "'re transformer list"
  transformed :: bool

text \<open>
  \<^verbatim>\<open>sync.Pool.Get\<close> hands out an idle item, or a new one when there is none; \<^verbatim>\<open>Put\<close>
  adds an item.
\<close>

definition pool_Get :: "'a \<Rightarrow> 'a list \<Rightarrow> 'a \<times> 'a list" where
  "pool_Get new idle = (case idle of [] \<Rightarrow> (new, []) | t # ts \<Rightarrow> (t, ts))"

definition pool_Put :: "'a list \<Rightarrow> 'a \<Rightarrow> 'a list" where
  "pool_Put idle t = t # idle"

text \<open>
  The branch \<^verbatim>\<open>if h.Stream\<close>, with the transformer \<open>tr\<close> in hand. The deferred calls
  run when the next handler has returned: first \<^verbatim>\<open>fw.tw.Close()\<close>, whose chunks go to
  \<^verbatim>\<open>w\<close> itself, then \<^verbatim>\<open>h.transformerPool.Put(tr)\<close>.
\<close>

definition serve_stream ::
  "'re externals \<Rightarrow> 're transformer \<Rightarrow> 're transformer list \<Rightarrow> response_writer
     \<Rightarrow> next_handler \<Rightarrow> 're served"
where
  "serve_stream X tr idle w next =
     (let fw = \<lparr>ResponseWriter = w, wroteHeader = False, tw = tr\<rparr>;
          fw' = foldl (fw_call X) fw (next_calls next)
      in case writer_Close X (tw fw') of
           (chunks, tr') \<Rightarrow>
             \<lparr>ret = next_err next,
              wr = foldl w_Write (ResponseWriter fw') chunks,
              pool = pool_Put idle tr',
              transformed = False\<rparr>)"

text \<open>
  The buffered branch, with the transformer \<open>tr\<close> in hand: the next handler runs
  against the recorder, then the recorded body is transformed and written. The recorder
  buffers into a \<^verbatim>\<open>bytes.Buffer\<close> taken from \<^verbatim>\<open>bufPool\<close> and reset before use, so the
  buffer starts empty whichever one the pool hands out; it is part of \<open>recorder\<close>.
\<close>

definition serve_buffered ::
  "'re externals \<Rightarrow> 're transformer \<Rightarrow> 're transformer list \<Rightarrow> response_writer
     \<Rightarrow> next_handler \<Rightarrow> 're served"
where
  "serve_buffered X tr idle w next =
     (case recorder X w (next_calls next) of
        (rec, w1) \<Rightarrow>
          (case next_err next of
             Some e \<Rightarrow> \<lparr>ret = Some e, wr = w1, pool = pool_Put idle tr, transformed = False\<rparr>
           | None \<Rightarrow>
               if \<not> rec_Buffered rec then
                 \<lparr>ret = None, wr = w1, pool = pool_Put idle tr, transformed = False\<rparr>
               else
                 (case transform_Bytes X tr (rec_Buffer rec) of
                    (Inl e, tr') \<Rightarrow>
                      \<lparr>ret = Some e, wr = w1, pool = pool_Put idle tr', transformed = True\<rparr>
                  | (Inr result, tr') \<Rightarrow>
                      (let w2 = (if Header_Get (hdr w1) ''Content-Length'' \<noteq> []
                                 then w_Header_Set w1 ''Content-Length''
                                        (Itoa (int (length result)))
                                 else w1);
                           w3 = (if rec_Status rec > 0 then w_WriteHeader w2 (rec_Status rec)
                                 else w2);
                           w4 = w_Write w3 result
                       in \<lparr>ret = None, wr = w4, pool = pool_Put idle tr',
                           transformed = True\<rparr>))))"

text \<open>
  The first two statements of \<^verbatim>\<open>ServeHTTP\<close>: take a transformer from the pool and reset
  it. A handler whose pool pointer is nil cannot do this (the call panics): \<open>None\<close>.
\<close>

definition acquire :: "'re Handler \<Rightarrow> ('re transformer \<times> 're transformer list) option" where
  "acquire h =
     (case transformerPool h of
        None \<Rightarrow> None
      | Some idle \<Rightarrow> (case pool_Get (New h) idle of (t, rest) \<Rightarrow> Some (Reset t, rest)))"

definition ServeHTTP ::
  "'re externals \<Rightarrow> 're Handler \<Rightarrow> response_writer \<Rightarrow> next_handler \<Rightarrow> 're served option"
where
  "ServeHTTP X h w next =
     (case acquire h of
        None \<Rightarrow> None
      | Some (tr, rest) \<Rightarrow>
          Some (if Stream h then serve_stream X tr rest w next
                else serve_buffered X tr rest w next))"

subsection \<open>The one-shot transform of a chain\<close>

text \<open>
  Modelled from the spec: the replacement a literal rule performs, which is code of
  \<^verbatim>\<open>github.com/icholy/replace\<close> and not in the repository. The spec has a literal rule
  scan for "occurrences of the literal pattern", "substituting found occurrences with the
  replacement text": the input is read left to right, an occurrence found is replaced and
  the scan goes on behind it. No rule with an empty literal pattern passes
  \<^verbatim>\<open>Provision\<close>; such a pattern changes nothing here.
\<close>

function replace_all :: "string \<Rightarrow> string \<Rightarrow> string \<Rightarrow> string" where
  "replace_all old new [] = []"
| "replace_all old new (c # cs) =
     (if old \<noteq> [] \<and> prefix old (c # cs)
      then new @ replace_all old new (drop (length old) (c # cs))
      else c # replace_all old new cs)"
  by pat_completeness auto
termination
  by (relation "measure (\<lambda>(old, new, s). length s)") auto

text \<open>
  Modelled from the spec: the one-shot buffered transform of a byte sequence by a chain,
  code of \<^verbatim>\<open>golang.org/x/text/transform\<close>. In the spec "rule i's output is rule i+1's
  input": the stages are applied in the order of the chain, each to the whole output of
  the one before. \<open>RE r new s\<close> is what the regular expression engine makes of \<open>s\<close> for
  the compiled expression \<open>r\<close> and the template \<open>new\<close>.
\<close>

fun stage_transform :: "('re \<Rightarrow> string \<Rightarrow> string \<Rightarrow> string) \<Rightarrow> 're stage \<Rightarrow> string \<Rightarrow> string" where
  "stage_transform RE (StringT old new p) s = replace_all old new s"
| "stage_transform RE (RegexpStringT r new p) s = RE r new s"

fun buffered_transform ::
  "('re \<Rightarrow> string \<Rightarrow> string \<Rightarrow> string) \<Rightarrow> 're transformer \<Rightarrow> string \<Rightarrow> string"
where
  "buffered_transform RE (Chain ts) s = foldl (\<lambda>acc st. stage_transform RE st acc) s ts"

subsection \<open>Vocabulary of the properties\<close>

text \<open>The three ways in which a rule fails the checks of \<^verbatim>\<open>Provision\<close>.\<close>

definition no_search :: "'re Replacement \<Rightarrow> bool" where
  "no_search repl = (Search repl = [] \<and> SearchRegexp repl = [])"

definition both_search :: "'re Replacement \<Rightarrow> bool" where
  "both_search repl = (Search repl \<noteq> [] \<and> SearchRegexp repl \<noteq> [])"

definition not_compiling :: "'re externals \<Rightarrow> 're Replacement \<Rightarrow> bool" where
  "not_compiling X repl =
     (SearchRegexp repl \<noteq> [] \<and> isl (regexp_Compile X (SearchRegexp repl)))"

definition invalid :: "'re externals \<Rightarrow> 're Replacement \<Rightarrow> bool" where
  "invalid X repl = (no_search repl \<or> both_search repl \<or> not_compiling X repl)"

text \<open>The calls of a next handler that produce the response: status and body.\<close>

fun writes :: "call \<Rightarrow> bool" where
  "writes (CallWriteHeader status) = True"
| "writes (CallWrite d) = True"
| "writes (CallHeaderSet k v) = False"
| "writes (CallHeaderDel k) = False"

fun is_WriteHeader :: "event \<Rightarrow> bool" where
  "is_WriteHeader (EvWriteHeader status h) = True"
| "is_WriteHeader (EvWrite d) = False"
| "is_WriteHeader (EvHeaderSet k v) = False"
| "is_WriteHeader (EvHeaderDel k) = False"

fun is_Write :: "event \<Rightarrow> bool" where
  "is_Write (EvWrite d) = True"
| "is_Write (EvWriteHeader status h) = False"
| "is_Write (EvHeaderSet k v) = False"
| "is_Write (EvHeaderDel k) = False"

text \<open>
  A call of the next handler that makes the wrapper write a final status: a body write,
  for which the wrapper writes 200, or a \<^verbatim>\<open>WriteHeader\<close> with a status outside 100 to 199.
\<close>

fun finalizes :: "call \<Rightarrow> bool" where
  "finalizes (CallWrite d) = True"
| "finalizes (CallWriteHeader status) = (\<not> (100 \<le> status \<and> status \<le> 199))"
| "finalizes (CallHeaderSet k v) = False"
| "finalizes (CallHeaderDel k) = False"

text \<open>
  The headers a response is sent with, for a writer of \<^verbatim>\<open>net/http\<close> that started with
  the header map \<open>h\<close> and has received the calls \<open>es\<close>. A \<^verbatim>\<open>WriteHeader\<close> with an interim
  status sends an interim response and leaves the headers open; the first
  \<^verbatim>\<open>WriteHeader\<close> with another status sends the header map as it stands at that call;
  without one, the first body write sends the map as it stands then, and without a body
  write the end of the request sends the map as it is. The interim statuses lie between
  100 and 199; which of them a server treats as interim (the HTTP/1 server of
  \<^verbatim>\<open>net/http\<close> excepts 101) is the parameter \<open>interim\<close>.
\<close>

fun sent_headers :: "(int \<Rightarrow> bool) \<Rightarrow> header \<Rightarrow> event list \<Rightarrow> header" where
  "sent_headers interim h [] = h"
| "sent_headers interim h (EvHeaderSet k v # es) = sent_headers interim (Header_Set h k v) es"
| "sent_headers interim h (EvHeaderDel k # es) = sent_headers interim (Header_Del h k) es"
| "sent_headers interim h (EvWriteHeader status snap # es) =
     (if interim status then sent_headers interim h es else snap)"
| "sent_headers interim h (EvWrite d # es) = h"

definition response_headers :: "(int \<Rightarrow> bool) \<Rightarrow> header \<Rightarrow> response_writer \<Rightarrow> header" where
  "response_headers interim h w = sent_headers interim h (calls w)"

definition interim_1xx :: "int \<Rightarrow> bool" where
  "interim_1xx status = (100 \<le> status \<and> status \<le> 199)"

subsection \<open>An instance of the external collaborators\<close>

text \<open>
  A small instance of \<open>externals\<close>, to run the model on concrete inputs. Its compiled
  expressions are their source text; it knows the expressions without operators, which
  match their own text, and the unbalanced \<^verbatim>\<open>(\<close>, which \<^verbatim>\<open>regexp.Compile\<close> rejects.
  Its transform writer transforms each chunk on its own and writes nothing on
  \<^verbatim>\<open>Close\<close>; its recorder buffers every body write and remembers the first status.
\<close>

definition sample_Compile :: "string \<Rightarrow> string + string" where
  "sample_Compile s =
     (if s = ''('' then Inl ''error parsing regexp: missing closing ): `(`'' else Inr s)"

definition sample_RE :: "string \<Rightarrow> string \<Rightarrow> string \<Rightarrow> string" where
  "sample_RE r new s = replace_all r new s"

fun sample_rec_call :: "recorded \<times> response_writer \<Rightarrow> call \<Rightarrow> recorded \<times> response_writer" where
  "sample_rec_call (rec, w) (CallHeaderSet k v) = (rec, w_Header_Set w k v)"
| "sample_rec_call (rec, w) (CallHeaderDel k) = (rec, w_Header_Del w k)"
| "sample_rec_call (rec, w) (CallWriteHeader status) =
     ((if rec_Status rec = 0 then rec\<lparr>rec_Status := status\<rparr> else rec), w)"
| "sample_rec_call (rec, w) (CallWrite d) =
     (rec\<lparr>rec_Status := (if rec_Status rec = 0 then StatusOK else rec_Status rec),
          rec_Buffer := rec_Buffer rec @ d\<rparr>, w)"

definition sample_recorder :: "response_writer \<Rightarrow> call list \<Rightarrow> recorded \<times> response_writer" where
  "sample_recorder w cs =
     foldl sample_rec_call (\<lparr>rec_Buffered = True, rec_Status = 0, rec_Buffer = []\<rparr>, w) cs"

definition sample :: "string externals" where
  "sample =
     \<lparr>regexp_Compile = sample_Compile,
      transform_Bytes = (\<lambda>tr b. (Inr (buffered_transform sample_RE tr b), tr)),
      writer_Write = (\<lambda>tr d. ([buffered_transform sample_RE tr d], tr)),
      writer_Close = (\<lambda>tr. ([], tr)),
      recorder = sample_recorder\<rparr>"

text \<open>The same with a one-shot transform that fails.\<close>

definition sample_failing :: "string externals" where
  "sample_failing =
     sample\<lparr>transform_Bytes := (\<lambda>tr b. (Inl (ErrExternal ''transform: short source buffer''), tr))\<rparr>"

text \<open>
  The same with a recorder that does not buffer: it passes the status and the body of the
  next handler on to the underlying writer as they come, writing status 200 before a
  body write that no status precedes, and reports that nothing was buffered. The
  predicate \<^verbatim>\<open>shouldBuf\<close> of \<^verbatim>\<open>ServeHTTP\<close> always asks for buffering and the source marks
  the branch for an unbuffered recorder as one that should never happen; the recorder is
  code of \<^verbatim>\<open>caddyhttp\<close>, and the branch is there for the case that it did not buffer.
\<close>

fun passthrough_call :: "recorded \<times> response_writer \<Rightarrow> call \<Rightarrow> recorded \<times> response_writer" where
  "passthrough_call (rec, w) (CallHeaderSet k v) = (rec, w_Header_Set w k v)"
| "passthrough_call (rec, w) (CallHeaderDel k) = (rec, w_Header_Del w k)"
| "passthrough_call (rec, w) (CallWriteHeader status) =
     (if rec_Status rec = 0 then (rec\<lparr>rec_Status := status\<rparr>, w_WriteHeader w status)
      else (rec, w))"
| "passthrough_call (rec, w) (CallWrite d) =
     (if rec_Status rec = 0
      then (rec\<lparr>rec_Status := StatusOK\<rparr>, w_Write (w_WriteHeader w StatusOK) d)
      else (rec, w_Write w d))"

definition passthrough_recorder :: "response_writer \<Rightarrow> call list \<Rightarrow> recorded \<times> response_writer" where
  "passthrough_recorder w cs =
     foldl passthrough_call (\<lparr>rec_Buffered = False, rec_Status = 0, rec_Buffer = []\<rparr>, w) cs"

definition sample_passthrough :: "string externals" where
  "sample_passthrough = sample\<lparr>recorder := passthrough_recorder\<rparr>"






text \<open>Concrete configurations, response writers and next handlers.\<close>

definition rule :: "string \<Rightarrow> string \<Rightarrow> string \<Rightarrow> string Replacement" where
  "rule s r new = \<lparr>Search = s, SearchRegexp = r, Replace = new, re = None\<rparr>"

definition handler_of :: "string Replacement list \<Rightarrow> bool \<Rightarrow> string Handler" where
  "handler_of rs stream = \<lparr>Replacements = rs, Stream = stream, transformerPool = None\<rparr>"

definition provisioned :: "string Replacement list \<Rightarrow> bool \<Rightarrow> string Handler" where
  "provisioned rs stream = snd (Provision sample (handler_of rs stream))"

definition writer_with :: "(string \<times> string list) list \<Rightarrow> response_writer" where
  "writer_with kvs = \<lparr>hdr = map_of kvs, calls = []\<rparr>"

definition upstream :: "call list \<Rightarrow> next_handler" where
  "upstream cs = \<lparr>next_calls = cs, next_err = None\<rparr>"

section \<open>Properties\<close>

subsection \<open>Decimal numerals\<close>

lemma decimal_small: "n < 10 \<Longrightarrow> decimal n = [digit n]"
  by (simp add: decimal.simps)

lemma Itoa_0: "Itoa 0 = ''0''"
  by code_simp

subsection \<open>\<^verbatim>\<open>Provision\<close>: which error, for which rule\<close>

text \<open>
  A rule that passes the three checks lets the loop go on; a rule that fails one ends
  it with the error of the first check it fails.
\<close>

lemma prepare_valid:
  "\<not> invalid X r \<Longrightarrow> fst (prepare X i (r # rs)) = fst (prepare X (Suc i) rs)"
  by (auto simp: invalid_def no_search_def both_search_def not_compiling_def
           split: sum.splits prod.splits)

lemma prepare_head_no_search:
  "no_search r \<Longrightarrow> fst (prepare X i (r # rs)) = Some (ErrNoSearch i)"
  by (simp add: no_search_def)

lemma prepare_head_both_search:
  "both_search r \<Longrightarrow> fst (prepare X i (r # rs)) = Some (ErrBothSearch i)"
  by (simp add: both_search_def)

lemma prepare_head_regexp:
  "Search r = [] \<Longrightarrow> SearchRegexp r \<noteq> [] \<Longrightarrow> regexp_Compile X (SearchRegexp r) = Inl e
   \<Longrightarrow> fst (prepare X i (r # rs)) = Some (ErrRegexp i e)"
  by simp

lemma prepare_invalid:
  "invalid X r \<Longrightarrow> fst (prepare X i (r # rs)) \<noteq> None"
  by (auto simp: invalid_def no_search_def both_search_def not_compiling_def
           split: sum.splits prod.splits)

lemma prepare_ok_iff:
  "fst (prepare X i rs) = None \<longleftrightarrow> (\<forall>r\<in>set rs. \<not> invalid X r)"
proof (induction rs arbitrary: i)
  case Nil
  show ?case by simp
next
  case (Cons r rs)
  show ?case
  proof (cases "invalid X r")
    case True
    then show ?thesis using prepare_invalid[of X r i rs] by auto
  next
    case False
    then show ?thesis using prepare_valid[of X r i rs] Cons.IH[of "Suc i"] by auto
  qed
qed

lemma prepare_skip:
  "k \<le> length rs \<Longrightarrow> \<forall>j<k. \<not> invalid X (rs ! j)
   \<Longrightarrow> fst (prepare X i rs) = fst (prepare X (i + k) (drop k rs))"
proof (induction k arbitrary: i rs)
  case 0
  show ?case by simp
next
  case (Suc k)
  then obtain r rs' where rs: "rs = r # rs'" by (cases rs) auto
  from Suc.prems rs have v: "\<not> invalid X r" by auto
  from Suc.prems rs have "k \<le> length rs'" "\<forall>j<k. \<not> invalid X (rs' ! j)" by auto
  from Suc.IH[OF this, of "Suc i"] prepare_valid[OF v, of i rs'] rs show ?case by simp
qed

lemma prepare_first_invalid:
  assumes "k < length rs" "\<forall>j<k. \<not> invalid X (rs ! j)"
  shows "fst (prepare X i rs) = fst (prepare X (i + k) (rs ! k # drop (Suc k) rs))"
  using prepare_skip[of k rs X i] assms by (simp add: Cons_nth_drop_Suc)

lemma prepare_error_text:
  "fst (prepare X i rs) = Some e \<Longrightarrow> \<exists>k msg. Error e = ''replacement '' @ Itoa (int k) @ '': '' @ msg"
proof (induction rs arbitrary: i)
  case Nil
  then show ?case by simp
next
  case (Cons r rs)
  show ?case
  proof (cases "invalid X r")
    case False
    with Cons.prems prepare_valid[of X r i rs] have "fst (prepare X (Suc i) rs) = Some e" by simp
    then show ?thesis by (rule Cons.IH)
  next
    case True
    then consider "no_search r" | "both_search r"
      | "\<not> no_search r" "\<not> both_search r" "not_compiling X r"
      by (auto simp: invalid_def)
    then show ?thesis
    proof cases
      case 1
      with Cons.prems prepare_head_no_search[of r X i rs] have "e = ErrNoSearch i" by simp
      then show ?thesis by auto
    next
      case 2
      with Cons.prems prepare_head_both_search[of r X i rs] have "e = ErrBothSearch i" by simp
      then show ?thesis by auto
    next
      case 3
      then obtain m where "Search r = []" "SearchRegexp r \<noteq> []"
        "regexp_Compile X (SearchRegexp r) = Inl m"
        by (auto simp: no_search_def both_search_def not_compiling_def isl_def)
      with Cons.prems prepare_head_regexp[of r X m i rs] have "e = ErrRegexp i m" by simp
      then show ?thesis by auto
    qed
  qed
qed

lemma prepare_not_no_replacements:
  "fst (prepare X i rs) \<noteq> Some ErrNoReplacements"
proof
  assume "fst (prepare X i rs) = Some ErrNoReplacements"
  from prepare_error_text[OF this] show False by simp
qed

lemma Provision_fst:
  "fst (Provision X h) =
     (if Replacements h = [] then Some ErrNoReplacements else fst (prepare X 0 (Replacements h)))"
  by (auto simp: Provision_def split: prod.splits option.splits)

lemma Provision_pool_kept:
  "fst (Provision X h) \<noteq> None \<Longrightarrow> transformerPool (snd (Provision X h)) = transformerPool h"
  by (auto simp: Provision_def split: prod.splits option.splits)

text \<open>
  Claim C4, as amended. \<^verbatim>\<open>Provision\<close> returns the error "no replacements configured"
  exactly when the list of replacements is empty, and returns no error exactly when the
  list is not empty and no rule is invalid (a rule is invalid when it has neither
  \<^verbatim>\<open>search\<close> nor \<^verbatim>\<open>search_regexp\<close>, or both, or a \<^verbatim>\<open>search_regexp\<close> that does not
  compile). The error it returns is that of the first invalid rule in list order: when
  that rule has neither pattern the error names its index, and when it has both the error
  names its index.
\<close>

theorem Provision_errors:
  "(fst (Provision X h) = Some ErrNoReplacements \<longleftrightarrow> Replacements h = []) \<and>
   (map_option Error (fst (Provision X h)) = Some ''no replacements configured''
      \<longleftrightarrow> Replacements h = []) \<and>
   (fst (Provision X h) = None
      \<longleftrightarrow> Replacements h \<noteq> [] \<and> (\<forall>r\<in>set (Replacements h). \<not> invalid X r)) \<and>
   (\<forall>k<length (Replacements h). (\<forall>j<k. \<not> invalid X (Replacements h ! j)) \<longrightarrow>
      (no_search (Replacements h ! k) \<longrightarrow> fst (Provision X h) = Some (ErrNoSearch k)) \<and>
      (both_search (Replacements h ! k) \<longrightarrow> fst (Provision X h) = Some (ErrBothSearch k)))"
proof (intro conjI allI impI)
  show "fst (Provision X h) = Some ErrNoReplacements \<longleftrightarrow> Replacements h = []"
    by (simp add: Provision_fst prepare_not_no_replacements)
next
  show "map_option Error (fst (Provision X h)) = Some ''no replacements configured''
          \<longleftrightarrow> Replacements h = []"
  proof (cases "Replacements h = []")
    case True
    then show ?thesis by (simp add: Provision_fst)
  next
    case False
    have "map_option Error (fst (prepare X 0 (Replacements h))) \<noteq> Some ''no replacements configured''"
    proof
      assume a: "map_option Error (fst (prepare X 0 (Replacements h))) = Some ''no replacements configured''"
      then obtain e where e: "fst (prepare X 0 (Replacements h)) = Some e"
        and t: "Error e = ''no replacements configured''" by auto
      from prepare_error_text[OF e] t show False by auto
    qed
    with False show ?thesis by (simp add: Provision_fst)
  qed
next
  show "fst (Provision X h) = None
          \<longleftrightarrow> Replacements h \<noteq> [] \<and> (\<forall>r\<in>set (Replacements h). \<not> invalid X r)"
    by (simp add: Provision_fst prepare_ok_iff)
next
  fix k
  assume k: "k < length (Replacements h)" and v: "\<forall>j<k. \<not> invalid X (Replacements h ! j)"
  then have ne: "Replacements h \<noteq> []" by auto
  assume "no_search (Replacements h ! k)"
  with prepare_first_invalid[OF k v, of 0] ne
  show "fst (Provision X h) = Some (ErrNoSearch k)"
    by (simp add: Provision_fst prepare_head_no_search del: prepare.simps)
next
  fix k
  assume k: "k < length (Replacements h)" and v: "\<forall>j<k. \<not> invalid X (Replacements h ! j)"
  then have ne: "Replacements h \<noteq> []" by auto
  assume "both_search (Replacements h ! k)"
  with prepare_first_invalid[OF k v, of 0] ne
  show "fst (Provision X h) = Some (ErrBothSearch k)"
    by (simp add: Provision_fst prepare_head_both_search del: prepare.simps)
qed

text \<open>
  The theorem at three lists of two rules with a valid first rule: the second rule has
  neither pattern, has both, or is valid too.
\<close>

theorem Provision_errors_witness:
  "1 < length (Replacements (handler_of [rule ''a'' [] ''b'', rule [] [] ''c''] False)) \<and>
   \<not> invalid sample (Replacements (handler_of [rule ''a'' [] ''b'', rule [] [] ''c''] False) ! 0) \<and>
   no_search (Replacements (handler_of [rule ''a'' [] ''b'', rule [] [] ''c''] False) ! 1) \<and>
   fst (Provision sample (handler_of [rule ''a'' [] ''b'', rule [] [] ''c''] False))
     = Some (ErrNoSearch 1) \<and>
   both_search (Replacements (handler_of [rule ''a'' [] ''b'', rule ''x'' ''y'' ''c''] False) ! 1) \<and>
   fst (Provision sample (handler_of [rule ''a'' [] ''b'', rule ''x'' ''y'' ''c''] False))
     = Some (ErrBothSearch 1) \<and>
   fst (Provision sample (handler_of [rule ''a'' [] ''b'', rule [] ''y'' ''c''] False)) = None"
proof -
  let ?h = "handler_of [rule ''a'' [] ''b'', rule [] [] ''c''] False"
  let ?h2 = "handler_of [rule ''a'' [] ''b'', rule ''x'' ''y'' ''c''] False"
  let ?h3 = "handler_of [rule ''a'' [] ''b'', rule [] ''y'' ''c''] False"
  have len: "1 < length (Replacements ?h)" by (simp add: handler_of_def)
  have v: "\<forall>j<1. \<not> invalid sample (Replacements ?h ! j)"
    by (simp add: handler_of_def rule_def invalid_def no_search_def both_search_def
          not_compiling_def)
  have n: "no_search (Replacements ?h ! 1)"
    by (simp add: handler_of_def rule_def no_search_def)
  from Provision_errors[of sample ?h] len v n
  have e1: "fst (Provision sample ?h) = Some (ErrNoSearch 1)" by blast
  have len2: "1 < length (Replacements ?h2)" by (simp add: handler_of_def)
  have v2: "\<forall>j<1. \<not> invalid sample (Replacements ?h2 ! j)"
    by (simp add: handler_of_def rule_def invalid_def no_search_def both_search_def
          not_compiling_def)
  have b2: "both_search (Replacements ?h2 ! 1)"
    by (simp add: handler_of_def rule_def both_search_def)
  from Provision_errors[of sample ?h2] len2 v2 b2
  have e2: "fst (Provision sample ?h2) = Some (ErrBothSearch 1)" by blast
  have ne3: "Replacements ?h3 \<noteq> []" by (simp add: handler_of_def)
  have v3: "\<forall>r\<in>set (Replacements ?h3). \<not> invalid sample r"
    by (simp add: handler_of_def rule_def invalid_def no_search_def both_search_def
          not_compiling_def sample_def sample_Compile_def)
  from Provision_errors[of sample ?h3] ne3 v3
  have e3: "fst (Provision sample ?h3) = None" by blast
  from len v n e1 b2 e2 e3 show ?thesis by simp
qed

text \<open>
  Claim C4 as stated asks, for every rule with neither pattern, for an error naming that
  rule's index. Here the rule at index 1 has neither pattern, and the error names index
  0, whose rule has both: the loop returns at the first invalid rule.
\<close>

theorem Provision_names_first_invalid_rule:
  "1 < length (Replacements (handler_of [rule ''a'' ''b'' ''c'', rule [] [] ''c''] False)) \<and>
   no_search (Replacements (handler_of [rule ''a'' ''b'' ''c'', rule [] [] ''c''] False) ! 1) \<and>
   fst (Provision sample (handler_of [rule ''a'' ''b'' ''c'', rule [] [] ''c''] False))
     \<noteq> Some (ErrNoSearch 1) \<and>
   fst (Provision sample (handler_of [rule ''a'' ''b'' ''c'', rule [] [] ''c''] False))
     = Some (ErrBothSearch 0)"
  by (simp add: handler_of_def rule_def no_search_def Provision_def)

lemma not_compiling_invalid: "not_compiling X r \<Longrightarrow> invalid X r"
  by (simp add: invalid_def)

lemma ServeHTTP_unprovisioned: "transformerPool h = None \<Longrightarrow> ServeHTTP X h w next = None"
  by (simp add: ServeHTTP_def acquire_def)

text \<open>
  Claim C5, as amended. For every rule whose \<^verbatim>\<open>search_regexp\<close> does not compile,
  \<^verbatim>\<open>Provision\<close> fails and does not assign the transformer pool, so that a handler
  which had none cannot serve. When that rule has no \<^verbatim>\<open>search\<close> and no rule before it is
  invalid, the error names the rule's index and includes the syntax error of
  \<^verbatim>\<open>regexp.Compile\<close>.
\<close>

theorem Provision_regexp_error:
  assumes k: "k < length (Replacements h)"
    and bad: "not_compiling X (Replacements h ! k)"
  shows "fst (Provision X h) \<noteq> None \<and>
         transformerPool (snd (Provision X h)) = transformerPool h \<and>
         (transformerPool h = None \<longrightarrow> ServeHTTP X (snd (Provision X h)) w next = None) \<and>
         ((\<forall>j<k. \<not> invalid X (Replacements h ! j)) \<and> Search (Replacements h ! k) = [] \<longrightarrow>
            (\<exists>e. regexp_Compile X (SearchRegexp (Replacements h ! k)) = Inl e \<and>
                 fst (Provision X h) = Some (ErrRegexp k e) \<and>
                 Error (ErrRegexp k e) = ''replacement '' @ Itoa (int k) @ '': '' @ e))"
proof -
  from k have ne: "Replacements h \<noteq> []" by auto
  from k have "Replacements h ! k \<in> set (Replacements h)" by simp
  with bad have "\<exists>r\<in>set (Replacements h). invalid X r"
    using not_compiling_invalid by blast
  then have fails: "fst (Provision X h) \<noteq> None"
    using prepare_ok_iff[of X 0 "Replacements h"] ne by (auto simp: Provision_fst)
  then have kept: "transformerPool (snd (Provision X h)) = transformerPool h"
    by (rule Provision_pool_kept)
  have first: "\<exists>e. regexp_Compile X (SearchRegexp (Replacements h ! k)) = Inl e \<and>
                 fst (Provision X h) = Some (ErrRegexp k e) \<and>
                 Error (ErrRegexp k e) = ''replacement '' @ Itoa (int k) @ '': '' @ e"
    if v: "\<forall>j<k. \<not> invalid X (Replacements h ! j)" and s: "Search (Replacements h ! k) = []"
  proof -
    from bad obtain e where c: "regexp_Compile X (SearchRegexp (Replacements h ! k)) = Inl e"
      and r: "SearchRegexp (Replacements h ! k) \<noteq> []"
      by (auto simp: not_compiling_def isl_def)
    from prepare_first_invalid[OF k v, of 0] ne prepare_head_regexp[OF s r c]
    have "fst (Provision X h) = Some (ErrRegexp k e)"
      by (simp add: Provision_fst del: prepare.simps)
    with c show ?thesis by simp
  qed
  from fails kept first show ?thesis
    by (simp add: ServeHTTP_unprovisioned)
qed

text \<open>The theorem at a single rule with the expression \<^verbatim>\<open>(\<close>.\<close>

theorem Provision_regexp_error_witness:
  "0 < length (Replacements (handler_of [rule [] ''('' ''b''] True)) \<and>
   not_compiling sample (Replacements (handler_of [rule [] ''('' ''b''] True) ! 0) \<and>
   Search (Replacements (handler_of [rule [] ''('' ''b''] True) ! 0) = [] \<and>
   fst (Provision sample (handler_of [rule [] ''('' ''b''] True))
     = Some (ErrRegexp 0 ''error parsing regexp: missing closing ): `(`'') \<and>
   ServeHTTP sample (snd (Provision sample (handler_of [rule [] ''('' ''b''] True)))
     (writer_with []) (upstream [CallWrite ''a'']) = None"
proof -
  let ?h = "handler_of [rule [] ''('' ''b''] True"
  have k: "0 < length (Replacements ?h)" by (simp add: handler_of_def)
  have bad: "not_compiling sample (Replacements ?h ! 0)"
    by (simp add: handler_of_def rule_def not_compiling_def sample_def sample_Compile_def)
  have s: "Search (Replacements ?h ! 0) = []" by (simp add: handler_of_def rule_def)
  have c: "regexp_Compile sample (SearchRegexp (Replacements ?h ! 0))
             = Inl ''error parsing regexp: missing closing ): `(`''"
    by (simp add: handler_of_def rule_def sample_def sample_Compile_def)
  have p: "transformerPool ?h = None" by (simp add: handler_of_def)
  from Provision_regexp_error[OF k bad, of "writer_with []" "upstream [CallWrite ''a'']"] s c p
  have "fst (Provision sample ?h) = Some (ErrRegexp 0 ''error parsing regexp: missing closing ): `(`'')"
    and "ServeHTTP sample (snd (Provision sample ?h)) (writer_with []) (upstream [CallWrite ''a''])
           = None"
    by auto
  with k bad s show ?thesis by simp
qed

text \<open>
  Claim C5 as stated asks for the syntax error whenever a rule's \<^verbatim>\<open>search_regexp\<close> does
  not compile. This rule has the expression \<^verbatim>\<open>(\<close> and a \<^verbatim>\<open>search\<close> as well: the check
  for both patterns comes before \<^verbatim>\<open>regexp.Compile\<close>, and its error carries no syntax
  error.
\<close>

theorem Provision_both_hides_regexp_error:
  "0 < length (Replacements (handler_of [rule ''a'' ''('' ''b''] False)) \<and>
   not_compiling sample (Replacements (handler_of [rule ''a'' ''('' ''b''] False) ! 0) \<and>
   fst (Provision sample (handler_of [rule ''a'' ''('' ''b''] False)) = Some (ErrBothSearch 0) \<and>
   Error (ErrBothSearch 0) =
     ''replacement 0: cannot specify both search and search_regexp in same replacement''"
  by (simp add: handler_of_def rule_def not_compiling_def sample_def sample_Compile_def
        Provision_def Itoa_0)

subsection \<open>Buffered mode\<close>

text \<open>The decimal numeral of a length reads back as that length.\<close>

lemma digit_value_digit: "d < 10 \<Longrightarrow> digit_value (digit d) = d"
  by (simp add: digit_value_def digit_def)

lemma decimal_value_snoc: "decimal_value (s @ [c]) = 10 * decimal_value s + digit_value c"
  by (simp add: decimal_value_def)

lemma decimal_value_decimal: "decimal_value (decimal n) = n"
proof (induction n rule: decimal.induct)
  case (1 n)
  show ?case
  proof (cases "n < 10")
    case True
    then show ?thesis
      by (simp add: decimal.simps[of n] decimal_value_def digit_value_digit)
  next
    case False
    with 1 have "decimal_value (decimal (n div 10)) = n div 10" by simp
    with False show ?thesis
      by (simp add: decimal.simps[of n] decimal_value_snoc digit_value_digit)
  qed
qed

lemma decimal_value_Itoa: "decimal_value (Itoa (int n)) = n"
  by (simp add: Itoa_def decimal_value_decimal)

lemma Header_Get_Set: "Header_Get (Header_Set h k v) k = v"
  by (simp add: Header_Get_def Header_Set_def)

lemma ServeHTTP_buffered:
  "\<not> Stream h \<Longrightarrow> acquire h = Some (tr, rest)
   \<Longrightarrow> ServeHTTP X h w next = Some (serve_buffered X tr rest w next)"
  by (simp add: ServeHTTP_def)

lemma ServeHTTP_stream:
  "Stream h \<Longrightarrow> acquire h = Some (tr, rest)
   \<Longrightarrow> ServeHTTP X h w next = Some (serve_stream X tr rest w next)"
  by (simp add: ServeHTTP_def)

text \<open>
  Claim C2. In buffered mode, when the next handler has returned without error, the recorder
  has buffered and the one-shot transform of the recorded body succeeds with \<open>result\<close>:
  if \<^verbatim>\<open>Content-Length\<close> has a non-empty value in the headers of the response before the
  transform, \<^verbatim>\<open>ServeHTTP\<close> sets it to the decimal numeral of the byte length of
  \<open>result\<close>, and does so before it writes the status and the body (the status is written
  with the corrected header); if the headers have no \<^verbatim>\<open>Content-Length\<close>, none is added.
  \<open>w1\<close> is the response writer as the next handler has left it.
\<close>

theorem buffered_content_length:
  assumes "\<not> Stream h" and "acquire h = Some (tr, rest)"
    and "recorder X w (next_calls next) = (rec, w1)"
    and "next_err next = None" and "rec_Buffered rec"
    and "transform_Bytes X tr (rec_Buffer rec) = (Inr result, tr')"
  shows "\<exists>out. ServeHTTP X h w next = Some out \<and> ret out = None \<and>
           (Header_Get (hdr w1) ''Content-Length'' \<noteq> [] \<longrightarrow>
              Header_Get (hdr (wr out)) ''Content-Length'' = Itoa (int (length result)) \<and>
              decimal_value (Header_Get (hdr (wr out)) ''Content-Length'') = length result \<and>
              calls (wr out) =
                calls w1 @ [EvHeaderSet ''Content-Length'' (Itoa (int (length result)))]
                  @ (if 0 < rec_Status rec then [EvWriteHeader (rec_Status rec) (hdr (wr out))]
                     else [])
                  @ [EvWrite result]) \<and>
           (hdr w1 ''Content-Length'' = None \<longrightarrow>
              hdr (wr out) ''Content-Length'' = None \<and>
              calls (wr out) =
                calls w1
                  @ (if 0 < rec_Status rec then [EvWriteHeader (rec_Status rec) (hdr w1)] else [])
                  @ [EvWrite result])"
proof -
  let ?out = "serve_buffered X tr rest w next"
  have out: "ServeHTTP X h w next = Some ?out"
    using assms(1,2) by (rule ServeHTTP_buffered)
  have r: "ret ?out = None"
    using assms(3-6) by (simp add: serve_buffered_def Let_def)
  have present: "Header_Get (hdr (wr ?out)) ''Content-Length'' = Itoa (int (length result)) \<and>
      decimal_value (Header_Get (hdr (wr ?out)) ''Content-Length'') = length result \<and>
      calls (wr ?out) =
        calls w1 @ [EvHeaderSet ''Content-Length'' (Itoa (int (length result)))]
          @ (if 0 < rec_Status rec then [EvWriteHeader (rec_Status rec) (hdr (wr ?out))] else [])
          @ [EvWrite result]"
    if "Header_Get (hdr w1) ''Content-Length'' \<noteq> []"
    using that assms(3-6)
    by (simp add: serve_buffered_def Let_def w_Header_Set_def w_WriteHeader_def w_Write_def
          Header_Get_Set decimal_value_Itoa)
  have absent: "hdr (wr ?out) ''Content-Length'' = None \<and>
      calls (wr ?out) =
        calls w1
          @ (if 0 < rec_Status rec then [EvWriteHeader (rec_Status rec) (hdr w1)] else [])
          @ [EvWrite result]"
    if "hdr w1 ''Content-Length'' = None"
    using that assms(3-6)
    by (simp add: serve_buffered_def Let_def w_WriteHeader_def w_Write_def Header_Get_def)
  show ?thesis
    by (rule exI[of _ ?out]) (use out r present absent in blast)
qed

text \<open>
  Claim C6. In buffered mode, when the one-shot transform of the collected body returns an
  error, \<^verbatim>\<open>ServeHTTP\<close> returns that error and the underlying response writer is as the
  next handler has left it: its header map is unchanged and it has received no call, so no
  status, no header change and no body byte.
\<close>

theorem buffered_transform_error:
  assumes "\<not> Stream h" and "acquire h = Some (tr, rest)"
    and "recorder X w (next_calls next) = (rec, w1)"
    and "next_err next = None" and "rec_Buffered rec"
    and "transform_Bytes X tr (rec_Buffer rec) = (Inl e, tr')"
  shows "\<exists>out. ServeHTTP X h w next = Some out \<and> ret out = Some e \<and> wr out = w1"
proof -
  have "ServeHTTP X h w next = Some (serve_buffered X tr rest w next)"
    using assms(1,2) by (rule ServeHTTP_buffered)
  moreover have "ret (serve_buffered X tr rest w next) = Some e"
    and "wr (serve_buffered X tr rest w next) = w1"
    using assms(3-6) by (simp_all add: serve_buffered_def)
  ultimately show ?thesis by simp
qed

text \<open>
  Claim C8. In buffered mode, when the next handler has returned without error and the
  recorder reports that nothing was buffered, \<^verbatim>\<open>ServeHTTP\<close> returns without error, does
  not call the transform and leaves the underlying response writer as the next handler
  and the recorder have left it: no status, no header change and no body byte is written
  on that path.
\<close>

theorem unbuffered_upstream:
  assumes "\<not> Stream h" and "acquire h = Some (tr, rest)"
    and "recorder X w (next_calls next) = (rec, w1)"
    and "next_err next = None" and "\<not> rec_Buffered rec"
  shows "\<exists>out. ServeHTTP X h w next = Some out \<and> ret out = None \<and>
           \<not> transformed out \<and> wr out = w1"
proof -
  have "ServeHTTP X h w next = Some (serve_buffered X tr rest w next)"
    using assms(1,2) by (rule ServeHTTP_buffered)
  moreover have "ret (serve_buffered X tr rest w next) = None"
    and "\<not> transformed (serve_buffered X tr rest w next)"
    and "wr (serve_buffered X tr rest w next) = w1"
    using assms(3-5) by (simp_all add: serve_buffered_def)
  ultimately show ?thesis by simp
qed

lemma provisioned_literal:
  "s \<noteq> [] \<Longrightarrow> provisioned [rule s [] new] stream =
     \<lparr>Replacements = [rule s [] new], Stream = stream, transformerPool = Some []\<rparr>"
  by (simp add: provisioned_def Provision_def handler_of_def rule_def)

lemma acquire_literal:
  "s \<noteq> [] \<Longrightarrow> acquire (provisioned [rule s [] new] stream) = Some (Chain [StringT s new []], [])"
proof -
  assume "s \<noteq> []"
  then have "acquire (provisioned [rule s [] new] stream) =
      acquire \<lparr>Replacements = [rule s [] new], Stream = stream, transformerPool = Some []\<rparr>"
    using provisioned_literal[of s new stream] by simp
  also have "\<dots> = Some (Chain [StringT s new []], [])"
    by (simp add: acquire_def pool_Get_def New_def new_stage_def rule_def replace_String_def)
  finally show ?thesis .
qed

lemma sample_fields:
  "regexp_Compile sample = sample_Compile"
  "transform_Bytes sample = (\<lambda>tr b. (Inr (buffered_transform sample_RE tr b), tr))"
  "writer_Write sample = (\<lambda>tr d. ([buffered_transform sample_RE tr d], tr))"
  "writer_Close sample = (\<lambda>tr. ([], tr))"
  "recorder sample = sample_recorder"
  by (simp_all add: sample_def)

text \<open>
  The theorem at a body of six bytes that the rule \<^verbatim>\<open>foo\<close> to \<^verbatim>\<open>ba\<close> shortens to four,
  once with a declared length of 6 and once with no \<^verbatim>\<open>Content-Length\<close>.
\<close>

theorem buffered_content_length_witness:
  "\<not> Stream (provisioned [rule ''foo'' [] ''ba''] False) \<and>
   acquire (provisioned [rule ''foo'' [] ''ba''] False) = Some (Chain [StringT ''foo'' ''ba'' []], []) \<and>
   Header_Get (hdr (writer_with [(''Content-Length'', [''6''])])) ''Content-Length'' \<noteq> [] \<and>
   Header_Get (hdr (wr (the (ServeHTTP sample (provisioned [rule ''foo'' [] ''ba''] False)
       (writer_with [(''Content-Length'', [''6''])])
       (upstream [CallWriteHeader 201, CallWrite ''foo'', CallWrite ''foo'']))))) ''Content-Length''
     = ''4'' \<and>
   hdr (writer_with []) ''Content-Length'' = None \<and>
   hdr (wr (the (ServeHTTP sample (provisioned [rule ''foo'' [] ''ba''] False)
       (writer_with [])
       (upstream [CallWriteHeader 201, CallWrite ''foo'', CallWrite ''foo''])))) ''Content-Length''
     = None"
proof -
  let ?h = "provisioned [rule ''foo'' [] ''ba''] False"
  let ?tr = "Chain [StringT ''foo'' ''ba'' []] :: string transformer"
  let ?next = "upstream [CallWriteHeader 201, CallWrite ''foo'', CallWrite ''foo'']"
  let ?w = "writer_with [(''Content-Length'', [''6''])]"
  let ?rec = "\<lparr>rec_Buffered = True, rec_Status = 201, rec_Buffer = ''foofoo''\<rparr>"
  have st: "\<not> Stream ?h" by (simp add: provisioned_literal)
  have acq: "acquire ?h = Some (?tr, [])" by (simp add: acquire_literal)
  have ne: "next_err ?next = None" by (simp add: upstream_def)
  have buf: "rec_Buffered ?rec" by simp
  have tb: "transform_Bytes sample ?tr (rec_Buffer ?rec) = (Inr ''baba'', ?tr)"
    by (simp add: sample_fields)
  have len: "Itoa (int (length ''baba'')) = ''4''" by code_simp
  have r1: "recorder sample ?w (next_calls ?next) = (?rec, ?w)"
    by (simp add: sample_fields sample_recorder_def upstream_def StatusOK_def)
  have p1: "Header_Get (hdr ?w) ''Content-Length'' \<noteq> []"
    by (simp add: writer_with_def Header_Get_def)
  have r2: "recorder sample (writer_with []) (next_calls ?next) = (?rec, writer_with [])"
    by (simp add: sample_fields sample_recorder_def upstream_def StatusOK_def)
  have p2: "hdr (writer_with []) ''Content-Length'' = None"
    by (simp add: writer_with_def)
  from buffered_content_length[OF st acq r1 ne buf tb] p1 len
  have c1: "Header_Get (hdr (wr (the (ServeHTTP sample ?h ?w ?next)))) ''Content-Length'' = ''4''"
    by auto
  from buffered_content_length[OF st acq r2 ne buf tb] p2
  have c2: "hdr (wr (the (ServeHTTP sample ?h (writer_with []) ?next))) ''Content-Length'' = None"
    by auto
  from st acq p1 c1 p2 c2 show ?thesis by simp
qed

lemma sample_failing_fields:
  "transform_Bytes sample_failing =
     (\<lambda>tr b. (Inl (ErrExternal ''transform: short source buffer''), tr))"
  "recorder sample_failing = sample_recorder"
  by (simp_all add: sample_failing_def sample_def)

text \<open>The theorem at a one-shot transform that fails.\<close>

theorem buffered_transform_error_witness:
  "\<not> Stream (provisioned [rule ''foo'' [] ''ba''] False) \<and>
   ret (the (ServeHTTP sample_failing (provisioned [rule ''foo'' [] ''ba''] False)
       (writer_with [(''Content-Length'', [''6''])])
       (upstream [CallWriteHeader 201, CallWrite ''foofoo''])))
     = Some (ErrExternal ''transform: short source buffer'') \<and>
   wr (the (ServeHTTP sample_failing (provisioned [rule ''foo'' [] ''ba''] False)
       (writer_with [(''Content-Length'', [''6''])])
       (upstream [CallWriteHeader 201, CallWrite ''foofoo''])))
     = writer_with [(''Content-Length'', [''6''])]"
proof -
  let ?h = "provisioned [rule ''foo'' [] ''ba''] False"
  let ?tr = "Chain [StringT ''foo'' ''ba'' []] :: string transformer"
  let ?next = "upstream [CallWriteHeader 201, CallWrite ''foofoo'']"
  let ?w = "writer_with [(''Content-Length'', [''6''])]"
  let ?rec = "\<lparr>rec_Buffered = True, rec_Status = 201, rec_Buffer = ''foofoo''\<rparr>"
  have st: "\<not> Stream ?h" by (simp add: provisioned_literal)
  have acq: "acquire ?h = Some (?tr, [])" by (simp add: acquire_literal)
  have ne: "next_err ?next = None" by (simp add: upstream_def)
  have buf: "rec_Buffered ?rec" by simp
  have r1: "recorder sample_failing ?w (next_calls ?next) = (?rec, ?w)"
    by (simp add: sample_failing_fields sample_recorder_def upstream_def StatusOK_def)
  have tb: "transform_Bytes sample_failing ?tr (rec_Buffer ?rec)
              = (Inl (ErrExternal ''transform: short source buffer''), ?tr)"
    by (simp add: sample_failing_fields)
  from buffered_transform_error[OF st acq r1 ne buf tb] st show ?thesis by auto
qed

lemma sample_passthrough_fields:
  "recorder sample_passthrough = passthrough_recorder"
  by (simp add: sample_passthrough_def sample_def)

text \<open>
  The theorem at a recorder that did not buffer: the body write of the next handler has
  gone to the underlying writer behind a status 200, and \<^verbatim>\<open>ServeHTTP\<close> adds nothing.
\<close>

theorem unbuffered_upstream_witness:
  "\<not> Stream (provisioned [rule ''foo'' [] ''ba''] False) \<and>
   next_err (upstream [CallWrite ''foo'']) = None \<and>
   \<not> rec_Buffered (fst (recorder sample_passthrough (writer_with []) [CallWrite ''foo''])) \<and>
   ret (the (ServeHTTP sample_passthrough (provisioned [rule ''foo'' [] ''ba''] False)
       (writer_with []) (upstream [CallWrite ''foo'']))) = None \<and>
   \<not> transformed (the (ServeHTTP sample_passthrough (provisioned [rule ''foo'' [] ''ba''] False)
       (writer_with []) (upstream [CallWrite ''foo'']))) \<and>
   wr (the (ServeHTTP sample_passthrough (provisioned [rule ''foo'' [] ''ba''] False)
       (writer_with []) (upstream [CallWrite ''foo''])))
     = snd (recorder sample_passthrough (writer_with []) [CallWrite ''foo'']) \<and>
   map is_Write (calls (wr (the (ServeHTTP sample_passthrough
       (provisioned [rule ''foo'' [] ''ba''] False)
       (writer_with []) (upstream [CallWrite ''foo''])))))
     = [False, True]"
proof -
  let ?h = "provisioned [rule ''foo'' [] ''ba''] False"
  let ?tr = "Chain [StringT ''foo'' ''ba'' []] :: string transformer"
  let ?next = "upstream [CallWrite ''foo'']"
  let ?w = "writer_with []"
  let ?rec = "\<lparr>rec_Buffered = False, rec_Status = 200, rec_Buffer = []\<rparr>"
  let ?w1 = "w_Write (w_WriteHeader ?w 200) ''foo''"
  have st: "\<not> Stream ?h" by (simp add: provisioned_literal)
  have acq: "acquire ?h = Some (?tr, [])" by (simp add: acquire_literal)
  have r0: "recorder sample_passthrough ?w [CallWrite ''foo''] = (?rec, ?w1)"
    by (simp add: sample_passthrough_fields passthrough_recorder_def StatusOK_def)
  then have r1: "recorder sample_passthrough ?w (next_calls ?next) = (?rec, ?w1)"
    by (simp add: upstream_def)
  have nb: "\<not> rec_Buffered ?rec" by simp
  have ne: "next_err ?next = None" by (simp add: upstream_def)
  have shape: "map is_Write (calls ?w1) = [False, True]"
    by (simp add: w_Write_def w_WriteHeader_def writer_with_def)
  from unbuffered_upstream[OF st acq r1 ne nb] obtain out where
    "ServeHTTP sample_passthrough ?h ?w ?next = Some out" "ret out = None"
    "\<not> transformed out" "wr out = ?w1"
    by blast
  with st ne r0 shape show ?thesis by simp
qed

subsection \<open>Streaming mode\<close>

text \<open>
  What the calls of the next handler do to the underlying writer, before and after the
  wrapper has written the header.
\<close>

lemma foldl_w_Write:
  "calls (foldl w_Write w chunks) = calls w @ map EvWrite chunks \<and>
   hdr (foldl w_Write w chunks) = hdr w"
  by (induction chunks arbitrary: w) (simp_all add: w_Write_def)

lemma fw_WriteHeader_ignored: "wroteHeader fw \<Longrightarrow> fw_WriteHeader fw status = fw"
  by (simp add: fw_WriteHeader_def)

lemma fw_WriteHeader_first:
  "\<not> wroteHeader fw \<Longrightarrow>
     wroteHeader (fw_WriteHeader fw status) \<and>
     tw (fw_WriteHeader fw status) = tw fw \<and>
     hdr (ResponseWriter (fw_WriteHeader fw status))
       = Header_Del (hdr (ResponseWriter fw)) ''Content-Length'' \<and>
     calls (ResponseWriter (fw_WriteHeader fw status))
       = calls (ResponseWriter fw)
           @ [EvHeaderDel ''Content-Length'',
              EvWriteHeader status (Header_Del (hdr (ResponseWriter fw)) ''Content-Length'')]"
  by (simp add: fw_WriteHeader_def w_WriteHeader_def w_Header_Del_def)

lemma fw_Write_first:
  "\<not> wroteHeader fw \<Longrightarrow>
     wroteHeader (fw_Write X fw d) \<and>
     calls (ResponseWriter (fw_Write X fw d))
       = calls (ResponseWriter fw)
           @ [EvHeaderDel ''Content-Length'',
              EvWriteHeader 200 (Header_Del (hdr (ResponseWriter fw)) ''Content-Length'')]
           @ map EvWrite (fst (writer_Write X (tw fw) d))"
  using fw_WriteHeader_first[of fw StatusOK]
  by (simp add: fw_Write_def Let_def foldl_w_Write StatusOK_def split: prod.splits)

lemma fw_Write_later:
  "wroteHeader fw \<Longrightarrow>
     wroteHeader (fw_Write X fw d) \<and>
     calls (ResponseWriter (fw_Write X fw d))
       = calls (ResponseWriter fw) @ map EvWrite (fst (writer_Write X (tw fw) d))"
  by (simp add: fw_Write_def Let_def foldl_w_Write split: prod.splits)

lemma fw_call_after:
  "wroteHeader fw \<Longrightarrow>
     wroteHeader (fw_call X fw c) \<and>
     (\<exists>es. calls (ResponseWriter (fw_call X fw c)) = calls (ResponseWriter fw) @ es \<and>
           (\<forall>e\<in>set es. \<not> is_WriteHeader e))"
proof (cases c)
  case (CallWrite d)
  assume "wroteHeader fw"
  from fw_Write_later[OF this, of X d] CallWrite show ?thesis by auto
qed (simp_all add: fw_WriteHeader_ignored w_Header_Set_def w_Header_Del_def)

lemma fw_call_header:
  "\<not> wroteHeader fw \<Longrightarrow> \<not> writes c \<Longrightarrow>
     \<not> wroteHeader (fw_call X fw c) \<and>
     (\<exists>es. calls (ResponseWriter (fw_call X fw c)) = calls (ResponseWriter fw) @ es \<and>
           (\<forall>e\<in>set es. \<not> is_WriteHeader e \<and> \<not> is_Write e))"
  by (cases c) (simp_all add: w_Header_Set_def w_Header_Del_def)

lemma fw_call_first:
  "\<not> wroteHeader fw \<Longrightarrow> writes c \<Longrightarrow>
     wroteHeader (fw_call X fw c) \<and>
     (\<exists>status es. calls (ResponseWriter (fw_call X fw c))
        = calls (ResponseWriter fw)
            @ [EvHeaderDel ''Content-Length'',
               EvWriteHeader status (Header_Del (hdr (ResponseWriter fw)) ''Content-Length'')]
            @ es \<and>
        (\<forall>e\<in>set es. \<not> is_WriteHeader e))"
proof (cases c)
  case (CallWriteHeader status)
  assume "\<not> wroteHeader fw"
  from fw_WriteHeader_first[OF this, of status] CallWriteHeader show ?thesis by auto
next
  case (CallWrite d)
  assume "\<not> wroteHeader fw"
  from fw_Write_first[OF this, of X d] CallWrite show ?thesis by auto
qed simp_all

lemma fw_run_after:
  "wroteHeader fw \<Longrightarrow>
     wroteHeader (foldl (fw_call X) fw cs) \<and>
     (\<exists>es. calls (ResponseWriter (foldl (fw_call X) fw cs)) = calls (ResponseWriter fw) @ es \<and>
           (\<forall>e\<in>set es. \<not> is_WriteHeader e))"
proof (induction cs arbitrary: fw)
  case Nil
  then show ?case by simp
next
  case (Cons c cs)
  from fw_call_after[OF Cons.prems, of X c] obtain es1 where
    w1: "wroteHeader (fw_call X fw c)" and
    c1: "calls (ResponseWriter (fw_call X fw c)) = calls (ResponseWriter fw) @ es1" and
    n1: "\<forall>e\<in>set es1. \<not> is_WriteHeader e" by blast
  from Cons.IH[OF w1] obtain es2 where
    w2: "wroteHeader (foldl (fw_call X) (fw_call X fw c) cs)" and
    c2: "calls (ResponseWriter (foldl (fw_call X) (fw_call X fw c) cs))
           = calls (ResponseWriter (fw_call X fw c)) @ es2" and
    n2: "\<forall>e\<in>set es2. \<not> is_WriteHeader e" by blast
  from c1 c2 n1 n2 have
    "calls (ResponseWriter (foldl (fw_call X) (fw_call X fw c) cs))
       = calls (ResponseWriter fw) @ (es1 @ es2) \<and> (\<forall>e\<in>set (es1 @ es2). \<not> is_WriteHeader e)"
    by auto
  with w2 show ?case by (simp del: append_assoc)
qed

lemma fw_run_headers:
  "\<not> wroteHeader fw \<Longrightarrow> \<forall>c\<in>set cs. \<not> writes c \<Longrightarrow>
     \<not> wroteHeader (foldl (fw_call X) fw cs) \<and>
     (\<exists>es. calls (ResponseWriter (foldl (fw_call X) fw cs)) = calls (ResponseWriter fw) @ es \<and>
           (\<forall>e\<in>set es. \<not> is_WriteHeader e \<and> \<not> is_Write e))"
proof (induction cs arbitrary: fw)
  case Nil
  then show ?case by simp
next
  case (Cons c cs)
  from Cons.prems have nc: "\<not> writes c" and ncs: "\<forall>c\<in>set cs. \<not> writes c" by auto
  from fw_call_header[OF Cons.prems(1) nc, of X] obtain es1 where
    w1: "\<not> wroteHeader (fw_call X fw c)" and
    c1: "calls (ResponseWriter (fw_call X fw c)) = calls (ResponseWriter fw) @ es1" and
    n1: "\<forall>e\<in>set es1. \<not> is_WriteHeader e \<and> \<not> is_Write e" by blast
  from Cons.IH[OF w1 ncs] obtain es2 where
    w2: "\<not> wroteHeader (foldl (fw_call X) (fw_call X fw c) cs)" and
    c2: "calls (ResponseWriter (foldl (fw_call X) (fw_call X fw c) cs))
           = calls (ResponseWriter (fw_call X fw c)) @ es2" and
    n2: "\<forall>e\<in>set es2. \<not> is_WriteHeader e \<and> \<not> is_Write e" by blast
  from c1 c2 n1 n2 have
    "calls (ResponseWriter (foldl (fw_call X) (fw_call X fw c) cs))
       = calls (ResponseWriter fw) @ (es1 @ es2) \<and>
     (\<forall>e\<in>set (es1 @ es2). \<not> is_WriteHeader e \<and> \<not> is_Write e)"
    by auto
  with w2 show ?case by (simp del: append_assoc)
qed

lemma fw_run_first:
  assumes nw: "\<not> wroteHeader fw" and ex: "\<exists>c\<in>set cs. writes c"
  shows "wroteHeader (foldl (fw_call X) fw cs) \<and>
     (\<exists>pre status snap post.
        calls (ResponseWriter (foldl (fw_call X) fw cs))
          = calls (ResponseWriter fw) @ pre
              @ [EvHeaderDel ''Content-Length'', EvWriteHeader status snap] @ post \<and>
        (\<forall>e\<in>set pre. \<not> is_WriteHeader e \<and> \<not> is_Write e) \<and>
        (\<forall>e\<in>set post. \<not> is_WriteHeader e) \<and>
        snap ''Content-Length'' = None)"
proof -
  from ex obtain cs1 c cs2 where cs: "cs = cs1 @ c # cs2" and c: "writes c"
    and cs1: "\<forall>c\<in>set cs1. \<not> writes c"
    using split_list_first_prop[of cs writes] by blast
  let ?f1 = "foldl (fw_call X) fw cs1"
  let ?f2 = "fw_call X ?f1 c"
  let ?f3 = "foldl (fw_call X) ?f2 cs2"
  have f3: "foldl (fw_call X) fw cs = ?f3" by (simp add: cs)
  from fw_run_headers[OF nw cs1, of X] obtain pre where
    w1: "\<not> wroteHeader ?f1" and
    c1: "calls (ResponseWriter ?f1) = calls (ResponseWriter fw) @ pre" and
    n1: "\<forall>e\<in>set pre. \<not> is_WriteHeader e \<and> \<not> is_Write e" by blast
  from fw_call_first[OF w1 c, of X] obtain status es where
    w2: "wroteHeader ?f2" and
    c2: "calls (ResponseWriter ?f2) = calls (ResponseWriter ?f1)
           @ [EvHeaderDel ''Content-Length'',
              EvWriteHeader status (Header_Del (hdr (ResponseWriter ?f1)) ''Content-Length'')]
           @ es" and
    n2: "\<forall>e\<in>set es. \<not> is_WriteHeader e" by blast
  from fw_run_after[OF w2, of X cs2] obtain es3 where
    w3: "wroteHeader ?f3" and
    c3: "calls (ResponseWriter ?f3) = calls (ResponseWriter ?f2) @ es3" and
    n3: "\<forall>e\<in>set es3. \<not> is_WriteHeader e" by blast
  let ?snap = "Header_Del (hdr (ResponseWriter ?f1)) ''Content-Length''"
  have "calls (ResponseWriter ?f3)
          = calls (ResponseWriter fw) @ pre
              @ [EvHeaderDel ''Content-Length'', EvWriteHeader status ?snap] @ (es @ es3)"
    using c1 c2 c3 by simp
  moreover have "\<forall>e\<in>set (es @ es3). \<not> is_WriteHeader e" using n2 n3 by auto
  moreover have "?snap ''Content-Length'' = None" by (simp add: Header_Del_def)
  ultimately show ?thesis using w3 n1 unfolding f3 by blast
qed

lemma filter_none: "\<forall>e\<in>set es. \<not> P e \<Longrightarrow> filter P es = []"
  by (induction es) auto

lemma fw_run_count:
  "length (filter is_WriteHeader (calls (ResponseWriter (foldl (fw_call X) fw cs))))
     \<le> Suc (length (filter is_WriteHeader (calls (ResponseWriter fw))))"
proof (cases "wroteHeader fw")
  case True
  from fw_run_after[OF True, of X cs] show ?thesis by (auto simp: filter_none)
next
  case False
  show ?thesis
  proof (cases "\<exists>c\<in>set cs. writes c")
    case True
    from fw_run_first[OF False True, of X] show ?thesis by (auto simp: filter_none)
  next
    case False
    with fw_run_headers[OF \<open>\<not> wroteHeader fw\<close>, of cs X] show ?thesis
      by (auto simp: filter_none)
  qed
qed

lemma serve_stream_calls:
  "calls (wr (serve_stream X tr idle w next))
     = calls (ResponseWriter (foldl (fw_call X)
                \<lparr>ResponseWriter = w, wroteHeader = False, tw = tr\<rparr> (next_calls next)))
         @ map EvWrite (fst (writer_Close X (tw (foldl (fw_call X)
                \<lparr>ResponseWriter = w, wroteHeader = False, tw = tr\<rparr> (next_calls next)))))"
  by (simp add: serve_stream_def Let_def foldl_w_Write split: prod.splits)

text \<open>
  Claim C10. In streaming mode the underlying response writer receives at most one
  \<^verbatim>\<open>WriteHeader\<close> call more than it had received before the request. A \<^verbatim>\<open>Write\<close> on a
  wrapper that has not written the header writes it with status 200, after deleting
  \<^verbatim>\<open>Content-Length\<close> and before the body chunks. Once the header is written it stays
  written whatever calls follow, and a \<^verbatim>\<open>WriteHeader\<close> call with any status leaves the
  wrapper and the underlying writer as they are.
\<close>

theorem stream_WriteHeader_once:
  "(Stream h \<and> ServeHTTP X h w next = Some out \<longrightarrow>
      length (filter is_WriteHeader (calls (wr out)))
        \<le> Suc (length (filter is_WriteHeader (calls w)))) \<and>
   (\<not> wroteHeader fw \<longrightarrow>
      wroteHeader (fw_Write X fw d) \<and>
      calls (ResponseWriter (fw_Write X fw d))
        = calls (ResponseWriter fw)
            @ [EvHeaderDel ''Content-Length'',
               EvWriteHeader 200 (Header_Del (hdr (ResponseWriter fw)) ''Content-Length'')]
            @ map EvWrite (fst (writer_Write X (tw fw) d))) \<and>
   (wroteHeader fw \<longrightarrow>
      fw_call X fw (CallWriteHeader status) = fw \<and>
      (\<forall>cs. wroteHeader (foldl (fw_call X) fw cs)))"
proof (intro conjI impI)
  assume a: "Stream h \<and> ServeHTTP X h w next = Some out"
  then obtain tr rest where "acquire h = Some (tr, rest)"
    by (auto simp: ServeHTTP_def split: option.splits)
  with a have out: "out = serve_stream X tr rest w next" by (auto simp: ServeHTTP_def)
  let ?fw = "\<lparr>ResponseWriter = w, wroteHeader = False, tw = tr\<rparr>"
  from fw_run_count[of X ?fw "next_calls next"]
  show "length (filter is_WriteHeader (calls (wr out)))
          \<le> Suc (length (filter is_WriteHeader (calls w)))"
    by (simp add: out serve_stream_calls filter_none)
next
  assume "\<not> wroteHeader fw"
  from fw_Write_first[OF this, of X d]
  show "wroteHeader (fw_Write X fw d)"
    and "calls (ResponseWriter (fw_Write X fw d))
        = calls (ResponseWriter fw)
            @ [EvHeaderDel ''Content-Length'',
               EvWriteHeader 200 (Header_Del (hdr (ResponseWriter fw)) ''Content-Length'')]
            @ map EvWrite (fst (writer_Write X (tw fw) d))"
    by simp_all
next
  assume w: "wroteHeader fw"
  then show "fw_call X fw (CallWriteHeader status) = fw"
    by (simp add: fw_WriteHeader_ignored)
  from w show "\<forall>cs. wroteHeader (foldl (fw_call X) fw cs)"
    using fw_run_after[of fw X] by blast
qed

lemma find_writes_split:
  "find writes cs = Some c \<Longrightarrow>
     \<exists>cs1 cs2. cs = cs1 @ c # cs2 \<and> writes c \<and> (\<forall>x\<in>set cs1. \<not> writes x)"
proof (induction cs)
  case Nil
  then show ?case by simp
next
  case (Cons a cs)
  show ?case
  proof (cases "writes a")
    case True
    with Cons.prems have "a = c" by simp
    with True have "a # cs = [] @ c # cs \<and> writes c \<and> (\<forall>x\<in>set []. \<not> writes x)" by simp
    then show ?thesis by blast
  next
    case False
    with Cons.prems have "find writes cs = Some c" by simp
    from Cons.IH[OF this] obtain cs1 cs2 where
      "cs = cs1 @ c # cs2" "writes c" "\<forall>x\<in>set cs1. \<not> writes x" by blast
    with False have "a # cs = (a # cs1) @ c # cs2 \<and> writes c \<and> (\<forall>x\<in>set (a # cs1). \<not> writes x)"
      by simp
    then show ?thesis by blast
  qed
qed

lemma fw_call_final:
  "\<not> wroteHeader fw \<Longrightarrow> finalizes c \<Longrightarrow>
     wroteHeader (fw_call X fw c) \<and>
     (\<exists>status es. calls (ResponseWriter (fw_call X fw c))
        = calls (ResponseWriter fw)
            @ [EvHeaderDel ''Content-Length'',
               EvWriteHeader status (Header_Del (hdr (ResponseWriter fw)) ''Content-Length'')]
            @ es \<and>
        \<not> (100 \<le> status \<and> status \<le> 199) \<and>
        (\<forall>e\<in>set es. \<not> is_WriteHeader e))"
proof (cases c)
  case (CallWriteHeader status)
  assume "\<not> wroteHeader fw" and "finalizes c"
  with fw_WriteHeader_first[of fw status] CallWriteHeader show ?thesis by auto
next
  case (CallWrite d)
  assume "\<not> wroteHeader fw"
  from fw_Write_first[OF this, of X d] CallWrite show ?thesis by auto
qed simp_all

lemma fw_run_final:
  assumes nw: "\<not> wroteHeader fw" and first: "find writes cs = Some c" and fin: "finalizes c"
  shows "\<exists>pre status snap post.
        calls (ResponseWriter (foldl (fw_call X) fw cs))
          = calls (ResponseWriter fw) @ pre
              @ [EvHeaderDel ''Content-Length'', EvWriteHeader status snap] @ post \<and>
        (\<forall>e\<in>set pre. \<not> is_WriteHeader e \<and> \<not> is_Write e) \<and>
        (\<forall>e\<in>set post. \<not> is_WriteHeader e) \<and>
        \<not> (100 \<le> status \<and> status \<le> 199) \<and>
        snap ''Content-Length'' = None"
proof -
  from find_writes_split[OF first] obtain cs1 cs2 where cs: "cs = cs1 @ c # cs2"
    and cs1: "\<forall>c\<in>set cs1. \<not> writes c" by blast
  let ?f1 = "foldl (fw_call X) fw cs1"
  let ?f2 = "fw_call X ?f1 c"
  let ?f3 = "foldl (fw_call X) ?f2 cs2"
  have f3: "foldl (fw_call X) fw cs = ?f3" by (simp add: cs)
  from fw_run_headers[OF nw cs1, of X] obtain pre where
    w1: "\<not> wroteHeader ?f1" and
    c1: "calls (ResponseWriter ?f1) = calls (ResponseWriter fw) @ pre" and
    n1: "\<forall>e\<in>set pre. \<not> is_WriteHeader e \<and> \<not> is_Write e" by blast
  from fw_call_final[OF w1 fin, of X] obtain status es where
    w2: "wroteHeader ?f2" and
    c2: "calls (ResponseWriter ?f2) = calls (ResponseWriter ?f1)
           @ [EvHeaderDel ''Content-Length'',
              EvWriteHeader status (Header_Del (hdr (ResponseWriter ?f1)) ''Content-Length'')]
           @ es" and
    s2: "\<not> (100 \<le> status \<and> status \<le> 199)" and
    n2: "\<forall>e\<in>set es. \<not> is_WriteHeader e" by blast
  from fw_run_after[OF w2, of X cs2] obtain es3 where
    c3: "calls (ResponseWriter ?f3) = calls (ResponseWriter ?f2) @ es3" and
    n3: "\<forall>e\<in>set es3. \<not> is_WriteHeader e" by blast
  let ?snap = "Header_Del (hdr (ResponseWriter ?f1)) ''Content-Length''"
  have "calls (ResponseWriter ?f3)
          = calls (ResponseWriter fw) @ pre
              @ [EvHeaderDel ''Content-Length'', EvWriteHeader status ?snap] @ (es @ es3)"
    using c1 c2 c3 by simp
  moreover have "\<forall>e\<in>set (es @ es3). \<not> is_WriteHeader e" using n2 n3 by auto
  moreover have "?snap ''Content-Length'' = None" by (simp add: Header_Del_def)
  ultimately show ?thesis using n1 s2 unfolding f3 by blast
qed

lemma sent_headers_final:
  "\<forall>e\<in>set pre. \<not> is_WriteHeader e \<and> \<not> is_Write e \<Longrightarrow> \<not> interim status \<Longrightarrow>
     sent_headers interim h (pre @ EvWriteHeader status snap # post) = snap"
proof (induction pre arbitrary: h)
  case Nil
  then show ?case by simp
next
  case (Cons e pre)
  then show ?case by (cases e) simp_all
qed

text \<open>
  Claim C3, as amended. In streaming mode, on a response writer that has received no call
  yet, for every sequence of calls of the next handler whose first \<^verbatim>\<open>WriteHeader\<close> or
  \<^verbatim>\<open>Write\<close> call is a \<^verbatim>\<open>Write\<close> or a \<^verbatim>\<open>WriteHeader\<close> with a status outside 100 to 199:
  the underlying writer receives header changes only, then the deletion of
  \<^verbatim>\<open>Content-Length\<close>, then the one \<^verbatim>\<open>WriteHeader\<close> call, with a status outside 100 to 199
  and headers without \<^verbatim>\<open>Content-Length\<close>, and only after it body writes (those of the
  flush on close included). The response is sent without a \<^verbatim>\<open>Content-Length\<close> header,
  whichever statuses from 100 to 199 the server treats as interim.
\<close>

theorem stream_drops_content_length:
  assumes "Stream h" and "acquire h = Some (tr, rest)" and "calls w = []"
    and "find writes (next_calls next) = Some c" and "finalizes c"
    and "\<forall>status. interim status \<longrightarrow> 100 \<le> status \<and> status \<le> 199"
  shows "\<exists>out pre status snap post.
           ServeHTTP X h w next = Some out \<and>
           calls (wr out) = pre @ [EvHeaderDel ''Content-Length'', EvWriteHeader status snap] @ post \<and>
           (\<forall>e\<in>set pre. \<not> is_WriteHeader e \<and> \<not> is_Write e) \<and>
           (\<forall>e\<in>set post. \<not> is_WriteHeader e) \<and>
           \<not> (100 \<le> status \<and> status \<le> 199) \<and>
           snap ''Content-Length'' = None \<and>
           response_headers interim (hdr w) (wr out) ''Content-Length'' = None"
proof -
  let ?out = "serve_stream X tr rest w next"
  let ?fw = "\<lparr>ResponseWriter = w, wroteHeader = False, tw = tr\<rparr>"
  let ?fw' = "foldl (fw_call X) ?fw (next_calls next)"
  have out: "ServeHTTP X h w next = Some ?out"
    using assms(1,2) by (rule ServeHTTP_stream)
  have "\<not> wroteHeader ?fw" by simp
  from fw_run_final[OF this assms(4,5), of X] assms(3) obtain pre status snap post where
    c: "calls (ResponseWriter ?fw')
          = pre @ [EvHeaderDel ''Content-Length'', EvWriteHeader status snap] @ post" and
    pre: "\<forall>e\<in>set pre. \<not> is_WriteHeader e \<and> \<not> is_Write e" and
    post: "\<forall>e\<in>set post. \<not> is_WriteHeader e" and
    st: "\<not> (100 \<le> status \<and> status \<le> 199)" and
    snap: "snap ''Content-Length'' = None"
    by auto
  let ?post = "post @ map EvWrite (fst (writer_Close X (tw ?fw')))"
  have c': "calls (wr ?out)
          = pre @ [EvHeaderDel ''Content-Length'', EvWriteHeader status snap] @ ?post"
    using c by (simp add: serve_stream_calls)
  have post': "\<forall>e\<in>set ?post. \<not> is_WriteHeader e" using post by auto
  from st assms(6) have ni: "\<not> interim status" by blast
  have "sent_headers interim (hdr w) (calls (wr ?out)) = snap"
    using sent_headers_final[of "pre @ [EvHeaderDel ''Content-Length'']" interim status
        "hdr w" snap ?post] pre ni
    by (simp add: c')
  then have rh: "response_headers interim (hdr w) (wr ?out) ''Content-Length'' = None"
    using snap by (simp add: response_headers_def)
  from out c' pre post' st snap rh show ?thesis by blast
qed

text \<open>
  The theorem at a next handler that writes, sets a status and writes again, and at a
  wrapper before and after its header is written.
\<close>

theorem stream_WriteHeader_once_witness:
  "Stream (provisioned [rule ''foo'' [] ''ba''] True) \<and>
   ServeHTTP sample (provisioned [rule ''foo'' [] ''ba''] True)
       (writer_with [(''Content-Length'', [''6''])])
       (upstream [CallWrite ''foo'', CallWriteHeader 404, CallWrite ''bar'']) \<noteq> None \<and>
   length (filter is_WriteHeader (calls (wr (the
     (ServeHTTP sample (provisioned [rule ''foo'' [] ''ba''] True)
       (writer_with [(''Content-Length'', [''6''])])
       (upstream [CallWrite ''foo'', CallWriteHeader 404, CallWrite ''bar'']))))))
     \<le> Suc (length (filter is_WriteHeader (calls (writer_with [(''Content-Length'', [''6''])])))) \<and>
   \<not> wroteHeader \<lparr>ResponseWriter = writer_with [], wroteHeader = False,
                   tw = Chain [StringT ''foo'' ''ba'' []]\<rparr> \<and>
   wroteHeader (fw_Write sample
     \<lparr>ResponseWriter = writer_with [], wroteHeader = False, tw = Chain [StringT ''foo'' ''ba'' []]\<rparr>
     ''foo'') \<and>
   map is_WriteHeader (calls (ResponseWriter (fw_Write sample
     \<lparr>ResponseWriter = writer_with [], wroteHeader = False, tw = Chain [StringT ''foo'' ''ba'' []]\<rparr>
     ''foo''))) = [False, True, False] \<and>
   wroteHeader \<lparr>ResponseWriter = writer_with [], wroteHeader = True,
                 tw = Chain [StringT ''foo'' ''ba'' []]\<rparr> \<and>
   fw_call sample
     \<lparr>ResponseWriter = writer_with [], wroteHeader = True, tw = Chain [StringT ''foo'' ''ba'' []]\<rparr>
     (CallWriteHeader 404)
     = \<lparr>ResponseWriter = writer_with [], wroteHeader = True, tw = Chain [StringT ''foo'' ''ba'' []]\<rparr>"
proof -
  let ?h = "provisioned [rule ''foo'' [] ''ba''] True"
  let ?tr = "Chain [StringT ''foo'' ''ba'' []] :: string transformer"
  let ?w = "writer_with [(''Content-Length'', [''6''])]"
  let ?next = "upstream [CallWrite ''foo'', CallWriteHeader 404, CallWrite ''bar'']"
  let ?fw0 = "\<lparr>ResponseWriter = writer_with [], wroteHeader = False, tw = ?tr\<rparr>"
  let ?fw1 = "\<lparr>ResponseWriter = writer_with [], wroteHeader = True, tw = ?tr\<rparr>"
  have st: "Stream ?h" by (simp add: provisioned_literal)
  have acq: "acquire ?h = Some (?tr, [])" by (simp add: acquire_literal)
  have some: "ServeHTTP sample ?h ?w ?next = Some (the (ServeHTTP sample ?h ?w ?next))"
    using ServeHTTP_stream[OF st acq, of sample ?w ?next] by simp
  have ne: "ServeHTTP sample ?h ?w ?next \<noteq> None"
    using ServeHTTP_stream[OF st acq, of sample ?w ?next] by simp
  have n0: "\<not> wroteHeader ?fw0" by simp
  have y1: "wroteHeader ?fw1" by simp
  note inst = stream_WriteHeader_once[of ?h sample ?w ?next "the (ServeHTTP sample ?h ?w ?next)"]
  from inst[of ?fw0 "''foo''"] st some
  have a: "length (filter is_WriteHeader (calls (wr (the (ServeHTTP sample ?h ?w ?next)))))
             \<le> Suc (length (filter is_WriteHeader (calls ?w)))"
    by blast
  from inst[of ?fw0 "''foo''"] n0
  have b: "wroteHeader (fw_Write sample ?fw0 ''foo'')"
    and b': "calls (ResponseWriter (fw_Write sample ?fw0 ''foo''))
        = calls (ResponseWriter ?fw0)
            @ [EvHeaderDel ''Content-Length'',
               EvWriteHeader 200 (Header_Del (hdr (ResponseWriter ?fw0)) ''Content-Length'')]
            @ map EvWrite (fst (writer_Write sample (tw ?fw0) ''foo''))"
    by blast+
  from b' have b'': "map is_WriteHeader (calls (ResponseWriter (fw_Write sample ?fw0 ''foo'')))
                       = [False, True, False]"
    by (simp add: writer_with_def sample_fields)
  from inst[of ?fw1 _ 404] y1
  have c: "fw_call sample ?fw1 (CallWriteHeader 404) = ?fw1" by blast
  from st ne a n0 b b'' y1 c show ?thesis by simp
qed

text \<open>
  The theorem at a response writer that carries a \<^verbatim>\<open>Content-Length\<close> and a next handler
  that sets another header and writes, with every status from 100 to 199 interim.
\<close>

theorem stream_drops_content_length_witness:
  "Stream (provisioned [rule ''foo'' [] ''ba''] True) \<and>
   calls (writer_with [(''Content-Length'', [''6''])]) = [] \<and>
   find writes (next_calls (upstream [CallHeaderSet ''Content-Type'' ''text/plain'', CallWrite ''foo'']))
     = Some (CallWrite ''foo'') \<and>
   finalizes (CallWrite ''foo'') \<and>
   response_headers interim_1xx (hdr (writer_with [(''Content-Length'', [''6''])])) (wr (the
     (ServeHTTP sample (provisioned [rule ''foo'' [] ''ba''] True)
       (writer_with [(''Content-Length'', [''6''])])
       (upstream [CallHeaderSet ''Content-Type'' ''text/plain'', CallWrite ''foo''])))) ''Content-Length''
     = None"
proof -
  let ?h = "provisioned [rule ''foo'' [] ''ba''] True"
  let ?tr = "Chain [StringT ''foo'' ''ba'' []] :: string transformer"
  let ?w = "writer_with [(''Content-Length'', [''6''])]"
  let ?next = "upstream [CallHeaderSet ''Content-Type'' ''text/plain'', CallWrite ''foo'']"
  have st: "Stream ?h" by (simp add: provisioned_literal)
  have acq: "acquire ?h = Some (?tr, [])" by (simp add: acquire_literal)
  have fresh: "calls ?w = []" by (simp add: writer_with_def)
  have first: "find writes (next_calls ?next) = Some (CallWrite ''foo'')"
    by (simp add: upstream_def)
  have fin: "finalizes (CallWrite ''foo'')" by simp
  have int: "\<forall>status. interim_1xx status \<longrightarrow> 100 \<le> status \<and> status \<le> 199"
    by (simp add: interim_1xx_def)
  from stream_drops_content_length[OF st acq fresh first fin int, of sample]
  have "response_headers interim_1xx (hdr ?w) (wr (the (ServeHTTP sample ?h ?w ?next)))
          ''Content-Length'' = None"
    by auto
  with st fresh first fin show ?thesis by simp
qed

text \<open>
  Claim C3 as stated has the final response without \<^verbatim>\<open>Content-Length\<close> for every
  sequence of calls of the next handler. The header is deleted by the wrapper's
  \<^verbatim>\<open>WriteHeader\<close> only: a next handler that sets \<^verbatim>\<open>Content-Length\<close> and returns without
  a \<^verbatim>\<open>WriteHeader\<close> or \<^verbatim>\<open>Write\<close> call leaves the header in the response.
\<close>

theorem stream_silent_upstream_keeps_content_length:
  "Stream (provisioned [rule ''foo'' [] ''ba''] True) \<and>
   ServeHTTP sample (provisioned [rule ''foo'' [] ''ba''] True) (writer_with [])
       (upstream [CallHeaderSet ''Content-Length'' ''6'']) \<noteq> None \<and>
   response_headers interim_1xx (hdr (writer_with [])) (wr (the
     (ServeHTTP sample (provisioned [rule ''foo'' [] ''ba''] True) (writer_with [])
       (upstream [CallHeaderSet ''Content-Length'' ''6''])))) ''Content-Length''
     = Some [''6''] \<and>
   filter is_WriteHeader (calls (wr (the
     (ServeHTTP sample (provisioned [rule ''foo'' [] ''ba''] True) (writer_with [])
       (upstream [CallHeaderSet ''Content-Length'' ''6''])))))
     = []"
proof -
  let ?h = "provisioned [rule ''foo'' [] ''ba''] True"
  let ?tr = "Chain [StringT ''foo'' ''ba'' []] :: string transformer"
  let ?next = "upstream [CallHeaderSet ''Content-Length'' ''6'']"
  have st: "Stream ?h" by (simp add: provisioned_literal)
  have acq: "acquire ?h = Some (?tr, [])" by (simp add: acquire_literal)
  have out: "ServeHTTP sample ?h (writer_with []) ?next
               = Some (serve_stream sample ?tr [] (writer_with []) ?next)"
    using st acq by (rule ServeHTTP_stream)
  have "response_headers interim_1xx (hdr (writer_with []))
          (wr (serve_stream sample ?tr [] (writer_with []) ?next)) ''Content-Length''
          = Some [''6'']"
    and "filter is_WriteHeader (calls (wr (serve_stream sample ?tr [] (writer_with []) ?next))) = []"
    by (simp_all add: serve_stream_def sample_fields upstream_def writer_with_def
          w_Header_Set_def Header_Set_def response_headers_def)
  with st out show ?thesis by simp
qed

text \<open>
  The amended claim leaves out a first status from 100 to 199. The wrapper counts such a
  \<^verbatim>\<open>WriteHeader\<close> as the header written, so it drops the final status that follows, and
  a \<^verbatim>\<open>Content-Length\<close> set after the interim status is in the header map when the body
  write finalizes the response.
\<close>

lemma stream_interim_status_keeps_content_length:
  "response_headers interim_1xx (hdr (writer_with [])) (wr (the
     (ServeHTTP sample (provisioned [rule ''foo'' [] ''ba''] True) (writer_with [])
       (upstream [CallWriteHeader 103, CallHeaderSet ''Content-Length'' ''3'',
                  CallWriteHeader 200, CallWrite ''foo''])))) ''Content-Length''
     = Some [''3''] \<and>
   length (filter is_WriteHeader (calls (wr (the
     (ServeHTTP sample (provisioned [rule ''foo'' [] ''ba''] True) (writer_with [])
       (upstream [CallWriteHeader 103, CallHeaderSet ''Content-Length'' ''3'',
                  CallWriteHeader 200, CallWrite ''foo'']))))))
     = 1"
proof -
  let ?h = "provisioned [rule ''foo'' [] ''ba''] True"
  let ?tr = "Chain [StringT ''foo'' ''ba'' []] :: string transformer"
  let ?next = "upstream [CallWriteHeader 103, CallHeaderSet ''Content-Length'' ''3'',
                  CallWriteHeader 200, CallWrite ''foo'']"
  have st: "Stream ?h" by (simp add: provisioned_literal)
  have acq: "acquire ?h = Some (?tr, [])" by (simp add: acquire_literal)
  have out: "ServeHTTP sample ?h (writer_with []) ?next
               = Some (serve_stream sample ?tr [] (writer_with []) ?next)"
    using st acq by (rule ServeHTTP_stream)
  have "response_headers interim_1xx (hdr (writer_with []))
          (wr (serve_stream sample ?tr [] (writer_with []) ?next)) ''Content-Length''
          = Some [''3'']"
    and "length (filter is_WriteHeader
           (calls (wr (serve_stream sample ?tr [] (writer_with []) ?next)))) = 1"
    by (simp_all add: serve_stream_def sample_fields upstream_def writer_with_def
          fw_WriteHeader_def fw_Write_def w_WriteHeader_def w_Write_def
          w_Header_Set_def w_Header_Del_def Header_Set_def Header_Del_def
          response_headers_def interim_1xx_def)
  with out show ?thesis by simp
qed

subsection \<open>The transformer pool\<close>












subsection \<open>The order of the rules\<close>

text \<open>
  Claim C7. The pool's \<^verbatim>\<open>New\<close> function chains the transformers in the order of the
  replacement list, so the rules compose as a pipeline: the chain for a list extended by
  one rule applies that rule to the whole output of the chain for the list, on every
  input. The chain A to B, B to C turns the input \<^verbatim>\<open>A\<close> into \<^verbatim>\<open>C\<close>; the chain B to C,
  A to B turns it into \<^verbatim>\<open>B\<close>. The one-shot transform of a chain and the replacement of
  a literal rule are modelled from the spec.
\<close>

theorem rules_compose_in_order:
  "buffered_transform RE
     (New (snd (Provision X
        \<lparr>Replacements = [\<lparr>Search = ''A'', SearchRegexp = [], Replace = ''B'', re = None\<rparr>,
                         \<lparr>Search = ''B'', SearchRegexp = [], Replace = ''C'', re = None\<rparr>],
         Stream = False, transformerPool = None\<rparr>))) ''A'' = ''C'' \<and>
   buffered_transform RE
     (New (snd (Provision X
        \<lparr>Replacements = [\<lparr>Search = ''B'', SearchRegexp = [], Replace = ''C'', re = None\<rparr>,
                         \<lparr>Search = ''A'', SearchRegexp = [], Replace = ''B'', re = None\<rparr>],
         Stream = False, transformerPool = None\<rparr>))) ''A'' = ''B'' \<and>
   (\<forall>h repl s.
      buffered_transform RE (New (h\<lparr>Replacements := Replacements h @ [repl]\<rparr>)) s
        = stage_transform RE (new_stage repl) (buffered_transform RE (New h) s))"
proof (intro conjI allI)
  show "buffered_transform RE
     (New (snd (Provision X
        \<lparr>Replacements = [\<lparr>Search = ''A'', SearchRegexp = [], Replace = ''B'', re = None\<rparr>,
                         \<lparr>Search = ''B'', SearchRegexp = [], Replace = ''C'', re = None\<rparr>],
         Stream = False, transformerPool = None\<rparr>))) ''A'' = ''C''"
    by (simp add: Provision_def New_def new_stage_def replace_String_def)
next
  show "buffered_transform RE
     (New (snd (Provision X
        \<lparr>Replacements = [\<lparr>Search = ''B'', SearchRegexp = [], Replace = ''C'', re = None\<rparr>,
                         \<lparr>Search = ''A'', SearchRegexp = [], Replace = ''B'', re = None\<rparr>],
         Stream = False, transformerPool = None\<rparr>))) ''A'' = ''B''"
    by (simp add: Provision_def New_def new_stage_def replace_String_def)
next
  fix h :: "'a Handler" and repl s
  show "buffered_transform RE (New (h\<lparr>Replacements := Replacements h @ [repl]\<rparr>)) s
        = stage_transform RE (new_stage repl) (buffered_transform RE (New h) s)"
    by (simp add: New_def)
qed

end
